theory Spec2Isabelle
  imports Main
begin

section \<open>disorderBook.c: a single-symbol limit order book\<close>

text \<open>
  A shallow embedding of \<^verbatim>\<open>src/disorderBook.c\<close>. The globals of the C file are the
  fields of the record \<open>state\<close>; every C function that touches them takes the state and
  returns the new one.

  Representation choices, all of them fixed here:
  \<^item> An \<^verbatim>\<open>ORDER *\<close> is modelled by the order's id: \<^verbatim>\<open>init_order\<close> stores the pointer at
    \<^verbatim>\<open>AllOrders[id]\<close> and orders are never freed, so the id addresses the struct. The
    array \<^verbatim>\<open>AllOrders\<close> (with \<^verbatim>\<open>NULL\<close> entries) is a map from ids to records.
  \<^item> An \<^verbatim>\<open>ACCOUNT *\<close> is modelled by the index of the account in \<^verbatim>\<open>AllAccounts\<close>.
  \<^item> The doubly linked chains (levels, order nodes, fill nodes) are HOL lists in chain
    order; a node of a level is the \<^verbatim>\<open>ORDER *\<close> it carries.
  \<^item> \<^verbatim>\<open>int\<close> fields are HOL integers. Where the C code converts a 64-bit value to a
    32-bit one, or where a claim is about overflow, the two's complement wrap is written
    out with \<open>int32_of\<close> and \<open>int64_of\<close>.
  \<^item> The wall clock behind \<^verbatim>\<open>new_timestamp\<close> is a counter: every call returns a fresh
    value.
  \<^item> The text written to \<^verbatim>\<open>stderr\<close> is the list \<open>stderr_out\<close> of events, oldest first.
  \<^item> A failed \<^verbatim>\<open>assert\<close> and an out-of-bounds array access have no defined result: the
    functions that can reach one return \<open>None\<close> there.
  \<^item> The capacity bookkeeping of the growing arrays and the \<^verbatim>\<open>DebugInfo\<close> counters are
    left out.
\<close>

subsection \<open>Constants\<close>

definition BUY :: int where "BUY = 1"
definition SELL :: int where "SELL = 2"

definition LIMIT :: int where "LIMIT = 1"
definition MARKET :: int where "MARKET = 2"
definition FOK :: int where "FOK = 3"
definition IOC :: int where "IOC = 4"

definition SMALLSTRING :: nat where "SMALLSTRING = 64"
definition MAXORDERS :: int where "MAXORDERS = 2000000000"
definition MAXACCOUNTS :: int where "MAXACCOUNTS = 5000"

definition TOO_MANY_ORDERS :: int where "TOO_MANY_ORDERS = 1"
definition SILLY_VALUE :: int where "SILLY_VALUE = 2"
definition TOO_HIGH_ACCOUNT :: int where "TOO_HIGH_ACCOUNT = 3"

subsection \<open>Machine integers\<close>

definition int32_of :: "int \<Rightarrow> int" where
  "int32_of x = (x + 2 ^ 31) mod 2 ^ 32 - 2 ^ 31"

definition int64_of :: "int \<Rightarrow> int" where
  "int64_of x = (x + 2 ^ 63) mod 2 ^ 64 - 2 ^ 63"

definition is_int32 :: "int \<Rightarrow> bool" where
  "is_int32 x = (- 2147483648 \<le> x \<and> x \<le> 2147483647)"

subsection \<open>Data\<close>

type_synonym timestamp = nat

record FILL =
  fill_price :: int
  fill_qty :: int
  fill_ts :: timestamp

record ACCOUNT =
  name :: string
  orders :: "int list"
  posmin :: int
  posmax :: int
  shares :: int
  cents :: int

record ORDER =
  direction :: int
  originalQty :: int
  qty :: int
  price :: int
  orderType :: int
  order_id :: int
  account :: int
  ts :: timestamp
  firstfillnode :: "FILL list"
  totalFilled :: int
  "open" :: bool

record LEVEL =
  level_price :: int
  firstordernode :: "int list"

record ORDER_AND_ERROR =
  oe_order :: "int option"
  oe_error :: int

record QUOTE =
  bidSize :: int
  askSize :: int
  bidDepth :: int
  askDepth :: int
  bid :: int
  ask :: int
  last_price :: int
  lastSize :: int
  lastTrade :: "timestamp option"
  quoteTime :: timestamp

text \<open>
  What \<^verbatim>\<open>print_order\<close> writes: the fields of the JSON object, in the order of the format
  string.
\<close>

record order_json =
  json_direction :: string
  json_originalQty :: int
  json_qty :: int
  json_price :: int
  json_orderType :: string
  json_id :: int
  json_account :: string
  json_ts :: timestamp
  json_totalFilled :: int
  json_open :: bool
  json_fills :: "FILL list"

text \<open>
  The two kinds of message on \<^verbatim>\<open>stderr\<close>. An execution message carries the addressee,
  the addressee's order as printed, the two ids, price, quantity, the fill's timestamp
  and the two completion flags; a ticker carries the quote.
\<close>

datatype event =
  EXECUTION string order_json int int int int timestamp bool bool
  | TICKER QUOTE

record state =
  FirstBidLevel :: "LEVEL list"
  FirstAskLevel :: "LEVEL list"
  AllOrders :: "int \<rightharpoonup> ORDER"
  HighestKnownOrder :: int
  AllAccounts :: "int \<rightharpoonup> ACCOUNT"
  Quote :: QUOTE
  next_id_static :: int
  clock :: nat
  stderr_out :: "event list"

subsection \<open>Pointers\<close>

text \<open>
  Reading and writing through an \<^verbatim>\<open>ORDER *\<close> or an \<^verbatim>\<open>ACCOUNT *\<close>. Every pointer the C
  program holds is to a live struct; the theorems below that read a field through a
  pointer say so in their hypotheses (the pointer is in the domain of the map).
\<close>

definition order_at :: "state \<Rightarrow> int \<Rightarrow> ORDER" where
  "order_at s p = the (AllOrders s p)"

definition upd_order :: "int \<Rightarrow> (ORDER \<Rightarrow> ORDER) \<Rightarrow> state \<Rightarrow> state" where
  "upd_order p f s = s\<lparr>AllOrders := (AllOrders s)(p \<mapsto> f (order_at s p))\<rparr>"

definition account_at :: "state \<Rightarrow> int \<Rightarrow> ACCOUNT" where
  "account_at s a = the (AllAccounts s a)"

subsection \<open>Ids, strings, timestamps\<close>

definition next_id :: "bool \<Rightarrow> state \<Rightarrow> int \<times> state" where
  "next_id no_iterate_flag s =
     (if next_id_static s = MAXORDERS then (MAXORDERS, s)
      else if no_iterate_flag then (next_id_static s, s)
      else (next_id_static s, s\<lparr>next_id_static := next_id_static s + 1\<rparr>))"

text \<open>A HOL string is the content of the C string before its terminator.\<close>

definition safe_strcpy :: "string \<Rightarrow> nat \<Rightarrow> string" where
  "safe_strcpy source sz = take (sz - 1) source"

definition new_timestamp :: "state \<Rightarrow> timestamp \<times> state" where
  "new_timestamp s = (clock s, s\<lparr>clock := clock s + 1\<rparr>)"

definition init_order :: "int \<Rightarrow> int \<Rightarrow> int \<Rightarrow> int \<Rightarrow> int \<Rightarrow> int \<Rightarrow> state \<Rightarrow> int \<times> state" where
  "init_order acc q p dir otype i s =
     (let (t, s1) = new_timestamp s;
          ret = \<lparr>direction = dir, originalQty = q, qty = q, price = p, orderType = otype,
                 order_id = i, account = acc, ts = t, firstfillnode = [], totalFilled = 0,
                 open = True\<rparr>
      in (i, s1\<lparr>AllOrders := (AllOrders s1)(i \<mapsto> ret), HighestKnownOrder := i\<rparr>))"

subsection \<open>The ledger\<close>

text \<open>
  \<^verbatim>\<open>update_account\<close> on the struct: \<open>tmp64\<close> is the \<^verbatim>\<open>int64_t\<close> local, the assignment to
  an \<^verbatim>\<open>int\<close> field converts with \<open>int32_of\<close>.
\<close>

definition update_shares :: "int \<Rightarrow> int \<Rightarrow> int \<Rightarrow> int" where
  "update_shares sh quantity dir =
     (if dir = BUY
      then (let tmp64 = int64_of (sh + quantity)
            in if tmp64 > 2147483647 then 2147483647 else int32_of tmp64)
      else (let tmp64 = int64_of (sh - quantity)
            in if tmp64 < - 2147483647 then - 2147483647 else int32_of tmp64))"

definition update_cents :: "int \<Rightarrow> int \<Rightarrow> int \<Rightarrow> int \<Rightarrow> int" where
  "update_cents ce quantity p dir =
     (if dir = BUY
      then (let tmp64 = int64_of (ce - int64_of (p * quantity))
            in if tmp64 < - 2147483647 then - 2147483647 else int32_of tmp64)
      else (let tmp64 = int64_of (ce + int64_of (p * quantity))
            in if tmp64 > 2147483647 then 2147483647 else int32_of tmp64))"

definition update_account_struct :: "ACCOUNT \<Rightarrow> int \<Rightarrow> int \<Rightarrow> int \<Rightarrow> ACCOUNT" where
  "update_account_struct acc quantity p dir =
     (let a1 = acc\<lparr>shares := update_shares (shares acc) quantity dir\<rparr>;
          a2 = a1\<lparr>cents := update_cents (cents a1) quantity p dir\<rparr>;
          a3 = (if shares a2 < posmin a2 then a2\<lparr>posmin := shares a2\<rparr> else a2);
          a4 = (if shares a3 > posmax a3 then a3\<lparr>posmax := shares a3\<rparr> else a3)
      in a4)"

definition update_account :: "int \<Rightarrow> int \<Rightarrow> int \<Rightarrow> int \<Rightarrow> state \<Rightarrow> state" where
  "update_account a quantity p dir s =
     s\<lparr>AllAccounts := (AllAccounts s)(a \<mapsto> update_account_struct (account_at s a) quantity p dir)\<rparr>"

text \<open>The clamp of the specification, for comparison with the code.\<close>

definition clamp32 :: "int \<Rightarrow> int" where
  "clamp32 x = max (- 2147483647) (min 2147483647 x)"

subsection \<open>Printing, quote and events\<close>

definition orderType_to_print :: "int \<Rightarrow> string" where
  "orderType_to_print t =
     (if t = LIMIT then safe_strcpy ''limit'' SMALLSTRING
      else if t = MARKET then safe_strcpy ''market'' SMALLSTRING
      else if t = IOC then safe_strcpy ''immediate-or-cancel'' SMALLSTRING
      else if t = FOK then safe_strcpy ''fill-or-kill'' SMALLSTRING
      else safe_strcpy ''unknown'' SMALLSTRING)"

definition print_order :: "state \<Rightarrow> int \<Rightarrow> order_json" where
  "print_order s p =
     (let r = order_at s p in
      \<lparr>json_direction = (if direction r = BUY then ''buy'' else ''sell''),
       json_originalQty = originalQty r,
       json_qty = qty r,
       json_price = price r,
       json_orderType = orderType_to_print (orderType r),
       json_id = order_id r,
       json_account = name (account_at s (account r)),
       json_ts = ts r,
       json_totalFilled = totalFilled r,
       json_open = open r,
       json_fills = firstfillnode r\<rparr>)"

text \<open>
  \<^verbatim>\<open>get_size_from_level\<close> and \<^verbatim>\<open>get_depth\<close> take a level pointer: here the chain that
  starts at that level (empty for \<^verbatim>\<open>NULL\<close>). The accumulators are \<^verbatim>\<open>int64_t\<close>.
\<close>

definition get_size_from_level :: "state \<Rightarrow> LEVEL list \<Rightarrow> int" where
  "get_size_from_level s level =
     (case level of
        [] \<Rightarrow> 0
      | l # _ \<Rightarrow> foldl (\<lambda>ret n. int64_of (ret + qty (order_at s n))) 0 (firstordernode l))"

fun get_depth_loop :: "state \<Rightarrow> int \<Rightarrow> LEVEL list \<Rightarrow> int" where
  "get_depth_loop s ret [] = ret"
| "get_depth_loop s ret (l # ls) =
     get_depth_loop s (int64_of (ret + get_size_from_level s (l # ls))) ls"

definition get_depth :: "state \<Rightarrow> LEVEL list \<Rightarrow> int" where
  "get_depth s level = get_depth_loop s 0 level"

definition create_ticker_message :: "state \<Rightarrow> state" where
  "create_ticker_message s = s\<lparr>stderr_out := stderr_out s @ [TICKER (Quote s)]\<rparr>"

definition create_execution_messages :: "int \<Rightarrow> int \<Rightarrow> int \<Rightarrow> int \<Rightarrow> timestamp \<Rightarrow> state \<Rightarrow> state" where
  "create_execution_messages standing incoming quantity p t s =
     s\<lparr>stderr_out := stderr_out s @
        [EXECUTION (name (account_at s (account (order_at s standing)))) (print_order s standing)
           (order_id (order_at s standing)) (order_id (order_at s incoming)) p quantity t
           (\<not> open (order_at s standing)) (\<not> open (order_at s incoming)),
         EXECUTION (name (account_at s (account (order_at s incoming)))) (print_order s incoming)
           (order_id (order_at s standing)) (order_id (order_at s incoming)) p quantity t
           (\<not> open (order_at s standing)) (\<not> open (order_at s incoming))]\<rparr>"

definition remake_most_of_quote :: "state \<Rightarrow> state" where
  "remake_most_of_quote s =
     (let q = (Quote s)\<lparr>bidSize := get_size_from_level s (FirstBidLevel s),
                        bidDepth := get_depth s (FirstBidLevel s),
                        askSize := get_size_from_level s (FirstAskLevel s),
                        askDepth := get_depth s (FirstAskLevel s),
                        bid := (case FirstBidLevel s of [] \<Rightarrow> - 1 | l # _ \<Rightarrow> level_price l),
                        ask := (case FirstAskLevel s of [] \<Rightarrow> - 1 | l # _ \<Rightarrow> level_price l)\<rparr>;
          (t, s1) = new_timestamp (s\<lparr>Quote := q\<rparr>)
      in s1\<lparr>Quote := (Quote s1)\<lparr>quoteTime := t\<rparr>\<rparr>)"

definition set_quote_lastinfo :: "int \<Rightarrow> int \<Rightarrow> state \<Rightarrow> state" where
  "set_quote_lastinfo lst lstSize s =
     (let (t, s1) = new_timestamp (s\<lparr>Quote := (Quote s)\<lparr>last_price := lst, lastSize := lstSize\<rparr>\<rparr>)
      in s1\<lparr>Quote := (Quote s1)\<lparr>lastTrade := Some t\<rparr>\<rparr>)"

subsection \<open>The matcher\<close>

text \<open>
  \<^verbatim>\<open>cross\<close>, statement by statement: every write goes through the pointer, so the model
  is the C function also when the two pointers are the same. Its blocks, in source order:
  the four decrements and increments, the fill appended to both orders and the two
  \<^verbatim>\<open>open\<close> flags, the positions of the two accounts; then the quote and the messages.
\<close>

definition cross_decrement :: "int \<Rightarrow> int \<Rightarrow> int \<Rightarrow> state \<Rightarrow> state" where
  "cross_decrement standing incoming quantity s1 =
     (let s2 = upd_order standing (\<lambda>r. r\<lparr>qty := qty r - quantity\<rparr>) s1;
          s3 = upd_order standing (\<lambda>r. r\<lparr>totalFilled := totalFilled r + quantity\<rparr>) s2;
          s4 = upd_order incoming (\<lambda>r. r\<lparr>qty := qty r - quantity\<rparr>) s3
      in upd_order incoming (\<lambda>r. r\<lparr>totalFilled := totalFilled r + quantity\<rparr>) s4)"

definition cross_record_fill :: "int \<Rightarrow> int \<Rightarrow> FILL \<Rightarrow> state \<Rightarrow> state" where
  "cross_record_fill standing incoming fill s5 =
     (let s6 = upd_order standing (\<lambda>r. r\<lparr>firstfillnode := firstfillnode r @ [fill]\<rparr>) s5;
          s7 = upd_order incoming (\<lambda>r. r\<lparr>firstfillnode := firstfillnode r @ [fill]\<rparr>) s6;
          s8 = (if qty (order_at s7 standing) = 0
                then upd_order standing (\<lambda>r. r\<lparr>open := False\<rparr>) s7 else s7)
      in if qty (order_at s8 incoming) = 0
         then upd_order incoming (\<lambda>r. r\<lparr>open := False\<rparr>) s8 else s8)"

definition cross_positions :: "int \<Rightarrow> int \<Rightarrow> int \<Rightarrow> int \<Rightarrow> state \<Rightarrow> state" where
  "cross_positions standing incoming quantity p s9 =
     (if name (account_at s9 (account (order_at s9 standing))) \<noteq>
         name (account_at s9 (account (order_at s9 incoming)))
      then (if direction (order_at s9 standing) = BUY
            then update_account (account (order_at s9 incoming)) quantity p SELL
                   (update_account (account (order_at s9 standing)) quantity p BUY s9)
            else update_account (account (order_at s9 incoming)) quantity p BUY
                   (update_account (account (order_at s9 standing)) quantity p SELL s9))
      else s9)"

definition cross :: "int \<Rightarrow> int \<Rightarrow> state \<Rightarrow> state" where
  "cross standing incoming s0 =
     (let (t, s1) = new_timestamp s0;
          quantity = (if qty (order_at s1 standing) < qty (order_at s1 incoming)
                      then qty (order_at s1 standing) else qty (order_at s1 incoming));
          s5 = cross_decrement standing incoming quantity s1;
          p = price (order_at s5 standing);
          s9 = cross_record_fill standing incoming
                 \<lparr>fill_price = p, fill_qty = quantity, fill_ts = t\<rparr> s5;
          s10 = cross_positions standing incoming quantity p s9;
          s11 = set_quote_lastinfo p quantity s10
      in create_execution_messages standing incoming quantity p t s11)"

text \<open>
  The inner loop of \<^verbatim>\<open>run_order\<close> over the nodes of one level. The flag says whether the
  function returned from inside the loop.
\<close>

fun run_order_nodes :: "int list \<Rightarrow> int \<Rightarrow> state \<Rightarrow> bool \<times> state" where
  "run_order_nodes [] order s = (False, s)"
| "run_order_nodes (n # ns) order s =
     (let s' = cross n order s
      in if \<not> open (order_at s' order) then (True, s') else run_order_nodes ns order s')"

text \<open>
  The outer loop over the levels of the opposite side. The two branches of the C function
  differ in the chain they walk and in the comparison of the price gate: \<open>selling\<close>
  chooses the comparison.
\<close>

fun run_order_levels :: "bool \<Rightarrow> LEVEL list \<Rightarrow> int \<Rightarrow> state \<Rightarrow> state" where
  "run_order_levels selling [] order s = s"
| "run_order_levels selling (l # ls) order s =
     (if (if selling then level_price l < price (order_at s order)
          else level_price l > price (order_at s order))
         \<and> orderType (order_at s order) \<noteq> MARKET
      then s
      else (case run_order_nodes (firstordernode l) order s of
              (True, s') \<Rightarrow> s'
            | (False, s') \<Rightarrow> run_order_levels selling ls order s'))"

definition run_order :: "int \<Rightarrow> state \<Rightarrow> state" where
  "run_order order s =
     (if direction (order_at s order) = SELL
      then run_order_levels True (FirstBidLevel s) order s
      else run_order_levels False (FirstAskLevel s) order s)"

subsection \<open>The book\<close>

text \<open>
  \<^verbatim>\<open>cleanup_closed_bids_or_asks\<close> on the chain behind \<^verbatim>\<open>*root_level\<close>; the result is the
  new chain. A level without a node fails the assertion.
\<close>

fun cleanup_closed_bids_or_asks :: "state \<Rightarrow> LEVEL list \<Rightarrow> LEVEL list option" where
  "cleanup_closed_bids_or_asks s [] = Some []"
| "cleanup_closed_bids_or_asks s (l # ls) =
     (if firstordernode l = [] then None
      else (case dropWhile (\<lambda>n. \<not> open (order_at s n)) (firstordernode l) of
              [] \<Rightarrow> cleanup_closed_bids_or_asks s ls
            | n # ns \<Rightarrow> Some (l\<lparr>firstordernode := n # ns\<rparr> # ls)))"

text \<open>
  \<^verbatim>\<open>insert_ask\<close> and \<^verbatim>\<open>insert_bid\<close> are the same text up to the comparison
  (\<^verbatim>\<open>order->price < level->price\<close> for asks, \<^verbatim>\<open>>\<close> for bids) and the root.
\<close>

fun insert_level :: "bool \<Rightarrow> int \<Rightarrow> int \<Rightarrow> LEVEL list \<Rightarrow> LEVEL list option" where
  "insert_level asks p order [] = Some [\<lparr>level_price = p, firstordernode = [order]\<rparr>]"
| "insert_level asks p order (l # ls) =
     (if (if asks then p < level_price l else p > level_price l)
      then Some (\<lparr>level_price = p, firstordernode = [order]\<rparr> # l # ls)
      else if p = level_price l
      then (if firstordernode l = [] then None
            else Some (l\<lparr>firstordernode := firstordernode l @ [order]\<rparr> # ls))
      else map_option ((#) l) (insert_level asks p order ls))"

definition insert_ask :: "int \<Rightarrow> state \<Rightarrow> state option" where
  "insert_ask order s =
     map_option (\<lambda>ls. s\<lparr>FirstAskLevel := ls\<rparr>)
       (insert_level True (price (order_at s order)) order (FirstAskLevel s))"

definition insert_bid :: "int \<Rightarrow> state \<Rightarrow> state option" where
  "insert_bid order s =
     map_option (\<lambda>ls. s\<lparr>FirstBidLevel := ls\<rparr>)
       (insert_level False (price (order_at s order)) order (FirstBidLevel s))"

subsection \<open>Fill-or-kill\<close>

text \<open>
  The inner loop of \<^verbatim>\<open>fok_can_buy\<close> and \<^verbatim>\<open>fok_can_sell\<close>: the running \<^verbatim>\<open>qty\<close> is an
  \<^verbatim>\<open>int\<close>, so the subtraction is wrapped. The flag says whether the function returned 1
  from inside the loop.
\<close>

fun fok_nodes :: "state \<Rightarrow> int list \<Rightarrow> int \<Rightarrow> bool \<times> int" where
  "fok_nodes s [] q = (False, q)"
| "fok_nodes s (n # ns) q =
     (let q' = int32_of (q - qty (order_at s n))
      in if q' \<le> 0 then (True, q') else fok_nodes s ns q')"

fun fok_levels :: "bool \<Rightarrow> state \<Rightarrow> LEVEL list \<Rightarrow> int \<Rightarrow> int \<Rightarrow> bool" where
  "fok_levels buying s [] q p = False"
| "fok_levels buying s (l # ls) q p =
     (if (if buying then level_price l \<le> p else level_price l \<ge> p)
      then (case fok_nodes s (firstordernode l) q of
              (True, _) \<Rightarrow> True
            | (False, q') \<Rightarrow> fok_levels buying s ls q' p)
      else False)"

definition fok_can_buy :: "int \<Rightarrow> int \<Rightarrow> state \<Rightarrow> bool" where
  "fok_can_buy q p s = fok_levels True s (FirstAskLevel s) q p"

definition fok_can_sell :: "int \<Rightarrow> int \<Rightarrow> state \<Rightarrow> bool" where
  "fok_can_sell q p s = fok_levels False s (FirstBidLevel s) q p"

subsection \<open>Accounts\<close>

definition init_account :: "string \<Rightarrow> ACCOUNT" where
  "init_account nm =
     \<lparr>name = safe_strcpy nm SMALLSTRING, orders = [], posmin = 0, posmax = 0, shares = 0,
      cents = 0\<rparr>"

text \<open>
  A negative \<^verbatim>\<open>account_int\<close> skips the growing loop and indexes the array out of bounds.
\<close>

definition account_lookup_or_create :: "string \<Rightarrow> int \<Rightarrow> state \<Rightarrow> (int \<times> state) option" where
  "account_lookup_or_create account_name account_int s =
     (if account_int < 0 then None
      else (case AllAccounts s account_int of
              None \<Rightarrow>
                Some (account_int,
                      s\<lparr>AllAccounts := (AllAccounts s)(account_int \<mapsto> init_account account_name)\<rparr>)
            | Some _ \<Rightarrow> Some (account_int, s)))"

definition add_order_to_account :: "int \<Rightarrow> int \<Rightarrow> state \<Rightarrow> state" where
  "add_order_to_account order a s =
     s\<lparr>AllAccounts := (AllAccounts s)(a \<mapsto> (account_at s a)\<lparr>orders := orders (account_at s a) @ [order]\<rparr>)\<rparr>"

subsection \<open>Placing an order\<close>

text \<open>
  The blocks of \<^verbatim>\<open>execute_order\<close> after the validation, in source order: creating
  the order (account, id, struct, the account's list), running it (with the fill-or-kill
  check), cleaning the opposite side, the price 0 of a market order, resting or closing
  the order, and the ticker.
\<close>

definition execute_order_create ::
  "string \<Rightarrow> int \<Rightarrow> int \<Rightarrow> int \<Rightarrow> int \<Rightarrow> int \<Rightarrow> state \<Rightarrow> (int \<times> state) option" where
  "execute_order_create account_name account_int q p dir otype s =
     (case account_lookup_or_create account_name account_int s of
        None \<Rightarrow> None
      | Some (accountobject, s1) \<Rightarrow>
          (let (i, s2) = next_id False s1;
               (order, s3) = init_order accountobject q p dir otype i s2
           in Some (order, add_order_to_account order accountobject s3)))"

definition execute_order_run :: "int \<Rightarrow> state \<Rightarrow> state" where
  "execute_order_run order s =
     (if orderType (order_at s order) \<noteq> FOK then run_order order s
      else if direction (order_at s order) = BUY
      then (if fok_can_buy (qty (order_at s order)) (price (order_at s order)) s
            then run_order order s else s)
      else (if fok_can_sell (qty (order_at s order)) (price (order_at s order)) s
            then run_order order s else s))"

definition execute_order_cleanup :: "int \<Rightarrow> state \<Rightarrow> state option" where
  "execute_order_cleanup order s =
     (if direction (order_at s order) = SELL
      then map_option (\<lambda>ls. s\<lparr>FirstBidLevel := ls\<rparr>)
             (cleanup_closed_bids_or_asks s (FirstBidLevel s))
      else map_option (\<lambda>ls. s\<lparr>FirstAskLevel := ls\<rparr>)
             (cleanup_closed_bids_or_asks s (FirstAskLevel s)))"

definition execute_order_market_price :: "int \<Rightarrow> state \<Rightarrow> state" where
  "execute_order_market_price order s =
     (if orderType (order_at s order) = MARKET
      then upd_order order (\<lambda>r. r\<lparr>price := 0\<rparr>) s else s)"

definition execute_order_place :: "int \<Rightarrow> state \<Rightarrow> state option" where
  "execute_order_place order s =
     (if open (order_at s order)
      then (if orderType (order_at s order) = LIMIT
            then (if direction (order_at s order) = SELL then insert_ask order s
                  else insert_bid order s)
            else Some (upd_order order (\<lambda>r. r\<lparr>qty := 0\<rparr>)
                         (upd_order order (\<lambda>r. r\<lparr>open := False\<rparr>) s)))
      else Some s)"

definition execute_order_ticker :: "int \<Rightarrow> state \<Rightarrow> state" where
  "execute_order_ticker order s =
     (if totalFilled (order_at s order) \<noteq> 0 \<or> orderType (order_at s order) = LIMIT
      then create_ticker_message (remake_most_of_quote s) else s)"

definition execute_order ::
  "string \<Rightarrow> int \<Rightarrow> int \<Rightarrow> int \<Rightarrow> int \<Rightarrow> int \<Rightarrow> state \<Rightarrow> (ORDER_AND_ERROR \<times> state) option" where
  "execute_order account_name account_int q p dir otype s =
     (if fst (next_id True s) \<ge> MAXORDERS
      then Some (\<lparr>oe_order = None, oe_error = TOO_MANY_ORDERS\<rparr>, s)
      else if account_int \<ge> MAXACCOUNTS
      then Some (\<lparr>oe_order = None, oe_error = TOO_HIGH_ACCOUNT\<rparr>, s)
      else if p < 0 \<or> q < 1 \<or> (dir \<noteq> SELL \<and> dir \<noteq> BUY)
      then Some (\<lparr>oe_order = None, oe_error = SILLY_VALUE\<rparr>, s)
      else
        (case execute_order_create account_name account_int q p dir otype s of
           None \<Rightarrow> None
         | Some (order, s4) \<Rightarrow>
             (case execute_order_cleanup order (execute_order_run order s4) of
                None \<Rightarrow> None
              | Some s6 \<Rightarrow>
                  (case execute_order_place order (execute_order_market_price order s6) of
                     None \<Rightarrow> None
                   | Some s8 \<Rightarrow>
                       Some (\<lparr>oe_order = Some order, oe_error = 0\<rparr>,
                             execute_order_ticker order s8)))))"

subsection \<open>Cancelling\<close>

text \<open>
  A \<^verbatim>\<open>LEVEL *\<close> is the chain it is on (\<open>True\<close> for the bids) and its position there.
  \<^verbatim>\<open>find_level\<close> walks the bids while the level's price is above the price looked for,
  the asks while it is below.
\<close>

definition level_chain :: "state \<Rightarrow> bool \<Rightarrow> LEVEL list" where
  "level_chain s bids = (if bids then FirstBidLevel s else FirstAskLevel s)"

fun find_level_loop :: "bool \<Rightarrow> int \<Rightarrow> LEVEL list \<Rightarrow> nat option" where
  "find_level_loop bids p [] = None"
| "find_level_loop bids p (l # ls) =
     (if (if bids then level_price l > p else level_price l < p)
      then map_option Suc (find_level_loop bids p ls)
      else if level_price l = p then Some 0
      else None)"

definition find_level :: "int \<Rightarrow> int \<Rightarrow> state \<Rightarrow> (bool \<times> nat) option" where
  "find_level p dir s =
     (if dir = BUY then map_option (Pair True) (find_level_loop True p (FirstBidLevel s))
      else map_option (Pair False) (find_level_loop False p (FirstAskLevel s)))"

fun find_ordernode_loop :: "state \<Rightarrow> int \<Rightarrow> int list \<Rightarrow> nat option" where
  "find_ordernode_loop s i [] = None"
| "find_ordernode_loop s i (n # ns) =
     (if order_id (order_at s n) = i then Some 0
      else map_option Suc (find_ordernode_loop s i ns))"

definition find_ordernode :: "(bool \<times> nat) option \<Rightarrow> int \<Rightarrow> state \<Rightarrow> nat option" where
  "find_ordernode level i s =
     (case level of
        None \<Rightarrow> None
      | Some (bids, k) \<Rightarrow> find_ordernode_loop s i (firstordernode (level_chain s bids ! k)))"

text \<open>
  \<^verbatim>\<open>cleanup_after_cancel\<close>: the node at position \<open>ni\<close> leaves its level. A level left
  without nodes is unlinked: through its predecessor when it has one, else the root that
  the order's direction names is moved on. When that root is not the chain the level is
  on, the chain keeps a pointer to the freed level: no defined result.
\<close>

definition cleanup_after_cancel :: "nat \<Rightarrow> bool \<times> nat \<Rightarrow> state \<Rightarrow> state option" where
  "cleanup_after_cancel ni level s =
     (let (bids, k) = level;
          chain = level_chain s bids;
          l = chain ! k;
          dir = direction (order_at s (firstordernode l ! ni));
          nodes = take ni (firstordernode l) @ drop (Suc ni) (firstordernode l);
          set_chain = (\<lambda>c. if bids then s\<lparr>FirstBidLevel := c\<rparr> else s\<lparr>FirstAskLevel := c\<rparr>)
      in if nodes \<noteq> [] then Some (set_chain (chain[k := l\<lparr>firstordernode := nodes\<rparr>]))
         else if 0 < k then Some (set_chain (take k chain @ drop (Suc k) chain))
         else if (dir = BUY) = bids then Some (set_chain (drop 1 chain))
         else None)"

definition cancel_order_by_id :: "int \<Rightarrow> state \<Rightarrow> state option" where
  "cancel_order_by_id i s =
     (if \<not> (i \<ge> 0 \<and> i \<le> HighestKnownOrder s) then None
      else if orderType (order_at s i) \<noteq> LIMIT then Some s
      else
        (let p = price (order_at s i);
             dir = direction (order_at s i);
             level = find_level p dir s;
             ordernode = find_ordernode level i s
         in case (level, ordernode) of
              (Some lv, Some ni) \<Rightarrow>
                (let node = firstordernode (level_chain s (fst lv) ! snd lv) ! ni;
                     s1 = upd_order node (\<lambda>r. r\<lparr>open := False\<rparr>) s;
                     s2 = upd_order node (\<lambda>r. r\<lparr>qty := 0\<rparr>) s1
                 in map_option (\<lambda>s3. create_ticker_message (remake_most_of_quote s3))
                      (cleanup_after_cancel ni lv s2))
            | _ \<Rightarrow> Some s))"

subsection \<open>The command loop\<close>

text \<open>
  The commands of \<^verbatim>\<open>main\<close> that the claims are about, with their arguments already
  converted by \<^verbatim>\<open>atoi\<close>, and what is printed on \<^verbatim>\<open>stdout\<close>.
\<close>

datatype command =
  ORDER_command string int int int int int
  | CANCEL_command int
  | STATUS_command int

datatype reply =
  Backend_error int
  | No_such_ID
  | Order_reply order_json

definition main_ORDER ::
  "string \<Rightarrow> int \<Rightarrow> int \<Rightarrow> int \<Rightarrow> int \<Rightarrow> int \<Rightarrow> state \<Rightarrow> (reply \<times> state) option" where
  "main_ORDER account_name account_int q p dir otype s =
     (case execute_order account_name account_int q p dir otype s of
        None \<Rightarrow> None
      | Some (o_and_e, s') \<Rightarrow>
          (if oe_error o_and_e \<noteq> 0 then Some (Backend_error (oe_error o_and_e), s')
           else (case oe_order o_and_e of
                   None \<Rightarrow> None
                 | Some order \<Rightarrow> Some (Order_reply (print_order s' order), s'))))"

definition main_STATUS :: "int \<Rightarrow> state \<Rightarrow> (reply \<times> state) option" where
  "main_STATUS i s =
     (if i < 0 \<or> i > HighestKnownOrder s \<or> AllOrders s i = None then Some (No_such_ID, s)
      else Some (Order_reply (print_order s i), s))"

definition main_CANCEL :: "int \<Rightarrow> state \<Rightarrow> (reply \<times> state) option" where
  "main_CANCEL i s =
     (if i < 0 \<or> i > HighestKnownOrder s \<or> AllOrders s i = None then Some (No_such_ID, s)
      else (case cancel_order_by_id i s of
              None \<Rightarrow> None
            | Some s' \<Rightarrow> Some (Order_reply (print_order s' i), s')))"

fun main_step :: "command \<Rightarrow> state \<Rightarrow> (reply \<times> state) option" where
  "main_step (ORDER_command account_name account_int q p dir otype) s =
     main_ORDER account_name account_int q p dir otype s"
| "main_step (CANCEL_command i) s = main_CANCEL i s"
| "main_step (STATUS_command i) s = main_STATUS i s"

text \<open>
  The state when \<^verbatim>\<open>main\<close> enters its loop: the initialisers of the globals, and the one
  timestamp taken for \<^verbatim>\<open>StartTime\<close> and copied to \<^verbatim>\<open>Quote.quoteTime\<close>.
\<close>

definition initial_state :: state where
  "initial_state =
     \<lparr>FirstBidLevel = [], FirstAskLevel = [], AllOrders = Map.empty, HighestKnownOrder = - 1,
      AllAccounts = Map.empty,
      Quote = \<lparr>bidSize = 0, askSize = 0, bidDepth = 0, askDepth = 0, bid = - 1, ask = - 1,
               last_price = - 1, lastSize = - 1, lastTrade = None, quoteTime = 0\<rparr>,
      next_id_static = 0, clock = 1, stderr_out = []\<rparr>"

text \<open>
  The arguments of a command are C \<^verbatim>\<open>int\<close>s. The states the program can be in between
  two commands are those that a sequence of commands reaches from the initial state.
\<close>

fun command_ok :: "command \<Rightarrow> bool" where
  "command_ok (ORDER_command account_name account_int q p dir otype) =
     (is_int32 account_int \<and> is_int32 q \<and> is_int32 p \<and> is_int32 dir \<and> is_int32 otype)"
| "command_ok (CANCEL_command i) = is_int32 i"
| "command_ok (STATUS_command i) = is_int32 i"

inductive reachable :: "state \<Rightarrow> bool" where
  reachable_init: "reachable initial_state"
| reachable_step:
    "reachable s \<Longrightarrow> command_ok c \<Longrightarrow> main_step c s = Some (r, s') \<Longrightarrow> reachable s'"

subsection \<open>Example states\<close>

text \<open>
  The book after \<^verbatim>\<open>ORDER A 0 100 5000 1 1\<close> on the initial state: one bid of 100 at
  5000 rests. Then the state in which \<^verbatim>\<open>ORDER B 1 60 5000 2 1\<close> has created its order
  and is about to run it, and the same with the second order placed by account 0.
\<close>

definition example_bid :: ORDER where
  "example_bid =
     \<lparr>direction = 1, originalQty = 100, qty = 100, price = 5000, orderType = 1, order_id = 0,
      account = 0, ts = 1, firstfillnode = [], totalFilled = 0, open = True\<rparr>"

definition example_ask :: "int \<Rightarrow> ORDER" where
  "example_ask acc =
     \<lparr>direction = 2, originalQty = 60, qty = 60, price = 5000, orderType = 1, order_id = 1,
      account = acc, ts = 3, firstfillnode = [], totalFilled = 0, open = True\<rparr>"

definition example_quote :: QUOTE where
  "example_quote =
     \<lparr>bidSize = 100, askSize = 0, bidDepth = 100, askDepth = 0, bid = 5000, ask = - 1,
      last_price = - 1, lastSize = - 1, lastTrade = None, quoteTime = 2\<rparr>"

definition resting_bid_state :: state where
  "resting_bid_state =
     \<lparr>FirstBidLevel = [\<lparr>level_price = 5000, firstordernode = [0]\<rparr>], FirstAskLevel = [],
      AllOrders = [0 \<mapsto> example_bid], HighestKnownOrder = 0,
      AllAccounts = [0 \<mapsto> \<lparr>name = ''A'', orders = [0], posmin = 0, posmax = 0, shares = 0,
                            cents = 0\<rparr>],
      Quote = example_quote, next_id_static = 1, clock = 3, stderr_out = [TICKER example_quote]\<rparr>"

definition incoming_ask_state :: state where
  "incoming_ask_state =
     resting_bid_state
       \<lparr>AllOrders := [0 \<mapsto> example_bid, 1 \<mapsto> example_ask 1], HighestKnownOrder := 1,
        AllAccounts := [0 \<mapsto> \<lparr>name = ''A'', orders = [0], posmin = 0, posmax = 0, shares = 0,
                              cents = 0\<rparr>,
                       1 \<mapsto> \<lparr>name = ''B'', orders = [1], posmin = 0, posmax = 0, shares = 0,
                              cents = 0\<rparr>],
        next_id_static := 2, clock := 4\<rparr>"

definition incoming_self_state :: state where
  "incoming_self_state =
     resting_bid_state
       \<lparr>AllOrders := [0 \<mapsto> example_bid, 1 \<mapsto> example_ask 0], HighestKnownOrder := 1,
        AllAccounts := [0 \<mapsto> \<lparr>name = ''A'', orders = [0, 1], posmin = 0, posmax = 0,
                              shares = 0, cents = 0\<rparr>],
        next_id_static := 2, clock := 4\<rparr>"

section \<open>Notions of the specification\<close>

subsection \<open>Price-time priority\<close>

text \<open>
  The walk of the matcher in the words of the specification. The price gate: the level's
  price crosses the limit of the incoming order (above it for a buyer, below it for a
  seller), and the order is not a market order. The priority sequence: the orders of the
  opposite side, levels from the best outward up to the first gated one, each level in
  queue order. The walk: cross the sequence in order, and stop as soon as the incoming
  order is closed or the sequence is exhausted.
\<close>

definition price_gate :: "ORDER \<Rightarrow> LEVEL \<Rightarrow> bool" where
  "price_gate incoming l =
     (orderType incoming \<noteq> MARKET \<and>
      (if direction incoming = SELL then level_price l < price incoming
       else level_price l > price incoming))"

definition opposite_side :: "state \<Rightarrow> int \<Rightarrow> LEVEL list" where
  "opposite_side s order =
     (if direction (order_at s order) = SELL then FirstBidLevel s else FirstAskLevel s)"

definition priority_sequence :: "state \<Rightarrow> int \<Rightarrow> int list" where
  "priority_sequence s order =
     concat (map firstordernode
       (takeWhile (\<lambda>l. \<not> price_gate (order_at s order) l) (opposite_side s order)))"

fun walk :: "int list \<Rightarrow> int \<Rightarrow> state \<Rightarrow> state" where
  "walk [] order s = s"
| "walk (n # ns) order s =
     (let s' = cross n order s
      in if open (order_at s' order) then walk ns order s' else s')"

subsection \<open>Fill-or-kill feasibility\<close>

text \<open>
  The resting quantities a fill-or-kill order of limit \<open>p\<close> can cross, in priority
  order, and the running decrement of the requested quantity over them, in exact
  arithmetic: it reaches \<open>\<le> 0\<close> at some point of the sequence.
\<close>

definition crossable_qtys :: "state \<Rightarrow> bool \<Rightarrow> int \<Rightarrow> int list" where
  "crossable_qtys s buying p =
     map (\<lambda>n. qty (order_at s n))
       (concat (map firstordernode
          (takeWhile (\<lambda>l. if buying then level_price l \<le> p else level_price l \<ge> p)
             (if buying then FirstAskLevel s else FirstBidLevel s))))"

fun decrement_reaches_zero :: "int \<Rightarrow> int list \<Rightarrow> bool" where
  "decrement_reaches_zero q [] = False"
| "decrement_reaches_zero q (x # xs) = (q - x \<le> 0 \<or> decrement_reaches_zero (q - x) xs)"

subsection \<open>Well-formed states\<close>

text \<open>
  What holds of every state between two commands (proved below for the reachable
  states). An order record: the filled quantity is within the original one, an open
  order has a positive remainder that adds up with the filled quantity to the original
  one, a closed order has remainder 0.
\<close>

definition order_ok :: "ORDER \<Rightarrow> bool" where
  "order_ok r =
     (0 \<le> totalFilled r \<and> originalQty r \<le> 2147483647 \<and> 0 \<le> price r \<and>
      (if open r then 0 < qty r \<and> qty r + totalFilled r = originalQty r
       else qty r = 0 \<and> totalFilled r \<le> originalQty r))"

definition book_nodes :: "state \<Rightarrow> int list" where
  "book_nodes s = concat (map firstordernode (FirstBidLevel s @ FirstAskLevel s))"

text \<open>
  The store: every record is well formed, stands at its own id, below the next id, and
  its account exists; the last id handed out is the highest known order.
\<close>

definition store_ok :: "state \<Rightarrow> bool" where
  "store_ok s =
     (0 \<le> next_id_static s \<and> next_id_static s \<le> MAXORDERS \<and>
      HighestKnownOrder s = next_id_static s - 1 \<and>
      (\<forall>i r. AllOrders s i = Some r \<longrightarrow>
         order_ok r \<and> order_id r = i \<and> 0 \<le> i \<and> i < next_id_static s \<and>
         AllAccounts s (account r) \<noteq> None))"

text \<open>
  One side of the book, up to the \<^verbatim>\<open>open\<close> flags: prices strictly ordered (falling for
  the bids, rising for the asks), no level without a node, and every node a stored limit
  order of that side at the level's price.
\<close>

fun prices_ordered :: "bool \<Rightarrow> int list \<Rightarrow> bool" where
  "prices_ordered bids [] = True"
| "prices_ordered bids (x # xs) =
     ((\<forall>y \<in> set xs. if bids then y < x else x < y) \<and> prices_ordered bids xs)"

definition resting_at :: "state \<Rightarrow> bool \<Rightarrow> int \<Rightarrow> int \<Rightarrow> bool" where
  "resting_at s bids p n =
     (\<exists>r. AllOrders s n = Some r \<and> orderType r = LIMIT \<and> price r = p \<and>
          direction r = (if bids then BUY else SELL))"

definition side_ok :: "state \<Rightarrow> bool \<Rightarrow> LEVEL list \<Rightarrow> bool" where
  "side_ok s bids ls =
     (prices_ordered bids (map level_price ls) \<and>
      (\<forall>l \<in> set ls. firstordernode l \<noteq> [] \<and>
         (\<forall>n \<in> set (firstordernode l). resting_at s bids (level_price l) n)))"

definition chains_ok :: "state \<Rightarrow> bool" where
  "chains_ok s =
     (store_ok s \<and> side_ok s True (FirstBidLevel s) \<and> side_ok s False (FirstAskLevel s) \<and>
      distinct (book_nodes s))"

text \<open>The book between two commands: moreover every resting order is open.\<close>

definition book_ok :: "state \<Rightarrow> bool" where
  "book_ok s = (chains_ok s \<and> (\<forall>n \<in> set (book_nodes s). open (order_at s n)))"

subsection \<open>Runs of commands, and more example states\<close>

text \<open>The same with the commands that were run, oldest first.\<close>

inductive reachable_by :: "command list \<Rightarrow> state \<Rightarrow> bool" where
  reachable_by_init: "reachable_by [] initial_state"
| reachable_by_step:
    "reachable_by cs s \<Longrightarrow> command_ok c \<Longrightarrow> main_step c s = Some (r, s') \<Longrightarrow>
     reachable_by (cs @ [c]) s'"

text \<open>
  Three more commands after the first. \<^verbatim>\<open>ORDER B 1 60 5000 2 1\<close> sells 60 to the resting
  bid: the state right after the cross, and the state after the command.
  \<^verbatim>\<open>ORDER C 2 10 5000 1 1\<close> queues a second bid behind the first at 5000, and
  \<^verbatim>\<open>ORDER A 0 20 5010 1 1\<close> opens a better bid level. Then the state in which
  \<^verbatim>\<open>ORDER B 1 25 5000 2 1\<close> has created its order and is about to run it.
\<close>

definition example_fill :: FILL where
  "example_fill = \<lparr>fill_price = 5000, fill_qty = 60, fill_ts = 4\<rparr>"

definition traded_bid :: ORDER where
  "traded_bid = example_bid\<lparr>qty := 40, firstfillnode := [example_fill], totalFilled := 60\<rparr>"

definition traded_ask :: ORDER where
  "traded_ask =
     (example_ask 1)\<lparr>qty := 0, firstfillnode := [example_fill], totalFilled := 60, open := False\<rparr>"

definition crossed_state :: state where
  "crossed_state =
     \<lparr>FirstBidLevel = [\<lparr>level_price = 5000, firstordernode = [0]\<rparr>], FirstAskLevel = [],
      AllOrders = [0 \<mapsto> traded_bid, 1 \<mapsto> traded_ask], HighestKnownOrder = 1,
      AllAccounts = [0 \<mapsto> \<lparr>name = ''A'', orders = [0], posmin = 0, posmax = 60, shares = 60,
                            cents = - 300000\<rparr>,
                     1 \<mapsto> \<lparr>name = ''B'', orders = [1], posmin = - 60, posmax = 0,
                            shares = - 60, cents = 300000\<rparr>],
      Quote = example_quote\<lparr>last_price := 5000, lastSize := 60, lastTrade := Some 5\<rparr>,
      next_id_static = 2, clock = 6,
      stderr_out =
        [TICKER example_quote,
         EXECUTION ''A''
           \<lparr>json_direction = ''buy'', json_originalQty = 100, json_qty = 40, json_price = 5000,
            json_orderType = ''limit'', json_id = 0, json_account = ''A'', json_ts = 1,
            json_totalFilled = 60, json_open = True, json_fills = [example_fill]\<rparr>
           0 1 5000 60 4 False True,
         EXECUTION ''B''
           \<lparr>json_direction = ''sell'', json_originalQty = 60, json_qty = 0, json_price = 5000,
            json_orderType = ''limit'', json_id = 1, json_account = ''B'', json_ts = 3,
            json_totalFilled = 60, json_open = False, json_fills = [example_fill]\<rparr>
           0 1 5000 60 4 False True]\<rparr>"

definition traded_quote :: QUOTE where
  "traded_quote =
     \<lparr>bidSize = 40, askSize = 0, bidDepth = 40, askDepth = 0, bid = 5000, ask = - 1,
      last_price = 5000, lastSize = 60, lastTrade = Some 5, quoteTime = 6\<rparr>"

definition traded_state :: state where
  "traded_state =
     crossed_state
       \<lparr>Quote := traded_quote, clock := 7,
        stderr_out := stderr_out crossed_state @ [TICKER traded_quote]\<rparr>"

definition second_bid :: ORDER where
  "second_bid =
     \<lparr>direction = 1, originalQty = 10, qty = 10, price = 5000, orderType = 1, order_id = 2,
      account = 2, ts = 7, firstfillnode = [], totalFilled = 0, open = True\<rparr>"

definition two_bids_state :: state where
  "two_bids_state =
     traded_state
       \<lparr>FirstBidLevel := [\<lparr>level_price = 5000, firstordernode = [0, 2]\<rparr>],
        AllOrders := [0 \<mapsto> traded_bid, 1 \<mapsto> traded_ask, 2 \<mapsto> second_bid],
        HighestKnownOrder := 2,
        AllAccounts := (AllAccounts traded_state)
          (2 \<mapsto> \<lparr>name = ''C'', orders = [2], posmin = 0, posmax = 0, shares = 0, cents = 0\<rparr>),
        Quote := traded_quote\<lparr>bidSize := 50, bidDepth := 50, quoteTime := 8\<rparr>,
        next_id_static := 3, clock := 9,
        stderr_out := stderr_out traded_state @
          [TICKER (traded_quote\<lparr>bidSize := 50, bidDepth := 50, quoteTime := 8\<rparr>)]\<rparr>"

definition better_bid :: ORDER where
  "better_bid =
     \<lparr>direction = 1, originalQty = 20, qty = 20, price = 5010, orderType = 1, order_id = 3,
      account = 0, ts = 9, firstfillnode = [], totalFilled = 0, open = True\<rparr>"

definition three_bids_state :: state where
  "three_bids_state =
     two_bids_state
       \<lparr>FirstBidLevel := [\<lparr>level_price = 5010, firstordernode = [3]\<rparr>,
                          \<lparr>level_price = 5000, firstordernode = [0, 2]\<rparr>],
        AllOrders := [0 \<mapsto> traded_bid, 1 \<mapsto> traded_ask, 2 \<mapsto> second_bid, 3 \<mapsto> better_bid],
        HighestKnownOrder := 3,
        AllAccounts := (AllAccounts two_bids_state)
          (0 \<mapsto> \<lparr>name = ''A'', orders = [0, 3], posmin = 0, posmax = 60, shares = 60,
                   cents = - 300000\<rparr>),
        Quote := traded_quote\<lparr>bidSize := 20, bidDepth := 70, bid := 5010, quoteTime := 10\<rparr>,
        next_id_static := 4, clock := 11,
        stderr_out := stderr_out two_bids_state @
          [TICKER (traded_quote\<lparr>bidSize := 20, bidDepth := 70, bid := 5010, quoteTime := 10\<rparr>)]\<rparr>"

definition incoming_sell :: ORDER where
  "incoming_sell =
     \<lparr>direction = 2, originalQty = 25, qty = 25, price = 5000, orderType = 1, order_id = 4,
      account = 1, ts = 11, firstfillnode = [], totalFilled = 0, open = True\<rparr>"

definition incoming_sell_state :: state where
  "incoming_sell_state =
     three_bids_state
       \<lparr>AllOrders := [0 \<mapsto> traded_bid, 1 \<mapsto> traded_ask, 2 \<mapsto> second_bid, 3 \<mapsto> better_bid,
                      4 \<mapsto> incoming_sell],
        HighestKnownOrder := 4,
        AllAccounts := (AllAccounts three_bids_state)
          (1 \<mapsto> \<lparr>name = ''B'', orders = [1, 4], posmin = - 60, posmax = 0, shares = - 60,
                   cents = 300000\<rparr>),
        next_id_static := 5, clock := 12\<rparr>"

section \<open>Basic facts\<close>

lemma int32_of_id: "- 2147483648 \<le> x \<Longrightarrow> x \<le> 2147483647 \<Longrightarrow> int32_of x = x"
  unfolding int32_of_def by (simp add: zmod_trivial_iff)

lemma int64_of_id:
  "- 9223372036854775808 \<le> x \<Longrightarrow> x \<le> 9223372036854775807 \<Longrightarrow> int64_of x = x"
  unfolding int64_of_def by (simp add: zmod_trivial_iff)

lemma order_at_upd_order [simp]:
  "order_at (upd_order p f s) q = (if q = p then f (order_at s p) else order_at s q)"
  by (simp add: order_at_def upd_order_def)

lemma AllOrders_upd_order:
  "AllOrders (upd_order p f s) = (AllOrders s)(p \<mapsto> f (order_at s p))"
  by (simp add: upd_order_def)

lemma upd_order_fields [simp]:
  "FirstBidLevel (upd_order p f s) = FirstBidLevel s"
  "FirstAskLevel (upd_order p f s) = FirstAskLevel s"
  "HighestKnownOrder (upd_order p f s) = HighestKnownOrder s"
  "AllAccounts (upd_order p f s) = AllAccounts s"
  "Quote (upd_order p f s) = Quote s"
  "next_id_static (upd_order p f s) = next_id_static s"
  "clock (upd_order p f s) = clock s"
  "stderr_out (upd_order p f s) = stderr_out s"
  "account_at (upd_order p f s) = account_at s"
  by (simp_all add: upd_order_def account_at_def fun_eq_iff)

lemma update_account_fields [simp]:
  "FirstBidLevel (update_account a q p d s) = FirstBidLevel s"
  "FirstAskLevel (update_account a q p d s) = FirstAskLevel s"
  "HighestKnownOrder (update_account a q p d s) = HighestKnownOrder s"
  "AllOrders (update_account a q p d s) = AllOrders s"
  "Quote (update_account a q p d s) = Quote s"
  "next_id_static (update_account a q p d s) = next_id_static s"
  "clock (update_account a q p d s) = clock s"
  "stderr_out (update_account a q p d s) = stderr_out s"
  "order_at (update_account a q p d s) = order_at s"
  by (simp_all add: update_account_def order_at_def fun_eq_iff)

lemma set_quote_lastinfo_fields [simp]:
  "FirstBidLevel (set_quote_lastinfo l z s) = FirstBidLevel s"
  "FirstAskLevel (set_quote_lastinfo l z s) = FirstAskLevel s"
  "HighestKnownOrder (set_quote_lastinfo l z s) = HighestKnownOrder s"
  "AllOrders (set_quote_lastinfo l z s) = AllOrders s"
  "AllAccounts (set_quote_lastinfo l z s) = AllAccounts s"
  "Quote (set_quote_lastinfo l z s) = (Quote s)\<lparr>last_price := l, lastSize := z, lastTrade := Some (clock s)\<rparr>"
  "next_id_static (set_quote_lastinfo l z s) = next_id_static s"
  "clock (set_quote_lastinfo l z s) = clock s + 1"
  "stderr_out (set_quote_lastinfo l z s) = stderr_out s"
  "order_at (set_quote_lastinfo l z s) = order_at s"
  "account_at (set_quote_lastinfo l z s) = account_at s"
  by (simp_all add: set_quote_lastinfo_def new_timestamp_def order_at_def account_at_def fun_eq_iff)

lemma create_execution_messages_fields [simp]:
  "FirstBidLevel (create_execution_messages a b q p t s) = FirstBidLevel s"
  "FirstAskLevel (create_execution_messages a b q p t s) = FirstAskLevel s"
  "HighestKnownOrder (create_execution_messages a b q p t s) = HighestKnownOrder s"
  "AllOrders (create_execution_messages a b q p t s) = AllOrders s"
  "AllAccounts (create_execution_messages a b q p t s) = AllAccounts s"
  "Quote (create_execution_messages a b q p t s) = Quote s"
  "next_id_static (create_execution_messages a b q p t s) = next_id_static s"
  "clock (create_execution_messages a b q p t s) = clock s"
  "order_at (create_execution_messages a b q p t s) = order_at s"
  "account_at (create_execution_messages a b q p t s) = account_at s"
  by (simp_all add: create_execution_messages_def order_at_def account_at_def fun_eq_iff)

lemma tick_fields [simp]:
  "FirstBidLevel (s\<lparr>clock := c\<rparr>) = FirstBidLevel s"
  "order_at (s\<lparr>clock := c\<rparr>) = order_at s"
  "account_at (s\<lparr>clock := c\<rparr>) = account_at s"
  by (simp_all add: order_at_def account_at_def fun_eq_iff)


lemma cross_decrement_fields [simp]:
  "FirstBidLevel (cross_decrement a b q s) = FirstBidLevel s"
  "FirstAskLevel (cross_decrement a b q s) = FirstAskLevel s"
  "HighestKnownOrder (cross_decrement a b q s) = HighestKnownOrder s"
  "AllAccounts (cross_decrement a b q s) = AllAccounts s"
  "Quote (cross_decrement a b q s) = Quote s"
  "next_id_static (cross_decrement a b q s) = next_id_static s"
  "clock (cross_decrement a b q s) = clock s"
  "stderr_out (cross_decrement a b q s) = stderr_out s"
  "account_at (cross_decrement a b q s) = account_at s"
  by (simp_all add: cross_decrement_def Let_def)

lemma cross_record_fill_fields [simp]:
  "FirstBidLevel (cross_record_fill a b f s) = FirstBidLevel s"
  "FirstAskLevel (cross_record_fill a b f s) = FirstAskLevel s"
  "HighestKnownOrder (cross_record_fill a b f s) = HighestKnownOrder s"
  "AllAccounts (cross_record_fill a b f s) = AllAccounts s"
  "Quote (cross_record_fill a b f s) = Quote s"
  "next_id_static (cross_record_fill a b f s) = next_id_static s"
  "clock (cross_record_fill a b f s) = clock s"
  "stderr_out (cross_record_fill a b f s) = stderr_out s"
  "account_at (cross_record_fill a b f s) = account_at s"
  by (simp_all add: cross_record_fill_def Let_def)

lemma cross_positions_fields [simp]:
  "FirstBidLevel (cross_positions a b q p s) = FirstBidLevel s"
  "FirstAskLevel (cross_positions a b q p s) = FirstAskLevel s"
  "HighestKnownOrder (cross_positions a b q p s) = HighestKnownOrder s"
  "AllOrders (cross_positions a b q p s) = AllOrders s"
  "Quote (cross_positions a b q p s) = Quote s"
  "next_id_static (cross_positions a b q p s) = next_id_static s"
  "clock (cross_positions a b q p s) = clock s"
  "stderr_out (cross_positions a b q p s) = stderr_out s"
  "order_at (cross_positions a b q p s) = order_at s"
  by (simp_all add: cross_positions_def)

lemma cross_decrement_order:
  "order_at (cross_decrement a b q s) r =
     (if r = b then (if a = b then (order_at s b)\<lparr>qty := qty (order_at s b) - q - q,
                                     totalFilled := totalFilled (order_at s b) + q + q\<rparr>
                    else (order_at s b)\<lparr>qty := qty (order_at s b) - q,
                                     totalFilled := totalFilled (order_at s b) + q\<rparr>)
      else if r = a then (order_at s a)\<lparr>qty := qty (order_at s a) - q,
                                     totalFilled := totalFilled (order_at s a) + q\<rparr>
      else order_at s r)"
  by (simp add: cross_decrement_def Let_def)

lemma cross_record_fill_order:
  "a \<noteq> b \<Longrightarrow> order_at (cross_record_fill a b f s) r =
     (if r = a \<or> r = b
      then (order_at s r)\<lparr>firstfillnode := firstfillnode (order_at s r) @ [f],
              open := open (order_at s r) \<and> qty (order_at s r) \<noteq> 0\<rparr>
      else order_at s r)"
  by (simp add: cross_record_fill_def Let_def)

lemma AllOrders_upd_order_at:
  "AllOrders (upd_order p f s) r = (if r = p then Some (f (order_at s p)) else AllOrders s r)"
  by (simp add: upd_order_def)

lemma AllOrders_cross_decrement:
  "AllOrders (cross_decrement a b q s) r =
     (if r = a \<or> r = b then Some (order_at (cross_decrement a b q s) r) else AllOrders s r)"
  by (simp add: cross_decrement_def Let_def AllOrders_upd_order_at)

lemma AllOrders_cross_record_fill:
  "AllOrders (cross_record_fill a b f s) r =
     (if r = a \<or> r = b then Some (order_at (cross_record_fill a b f s) r) else AllOrders s r)"
  by (simp add: cross_record_fill_def Let_def AllOrders_upd_order_at)

lemma cross_quantity_min: "(if (x::int) < y then x else y) = min x y"
  by (simp add: min_def)

lemma cross_unfold:
  "cross a b s =
     (let quantity = min (qty (order_at s a)) (qty (order_at s b));
          s5 = cross_decrement a b quantity (s\<lparr>clock := clock s + 1\<rparr>);
          p = price (order_at s5 a);
          s9 = cross_record_fill a b \<lparr>fill_price = p, fill_qty = quantity, fill_ts = clock s\<rparr> s5;
          s10 = cross_positions a b quantity p s9;
          s11 = set_quote_lastinfo p quantity s10
      in create_execution_messages a b quantity p (clock s) s11)"
  unfolding cross_def new_timestamp_def cross_quantity_min by (simp add: Let_def)

lemma cross_book [simp]:
  "FirstBidLevel (cross a b s) = FirstBidLevel s"
  "FirstAskLevel (cross a b s) = FirstAskLevel s"
  "HighestKnownOrder (cross a b s) = HighestKnownOrder s"
  "next_id_static (cross a b s) = next_id_static s"
  "clock (cross a b s) = clock s + 2"
  by (simp_all add: cross_unfold Let_def)

lemma cross_order_at:
  assumes "a \<noteq> b"
  shows "order_at (cross a b s) r =
    (if r = a \<or> r = b
     then (order_at s r)\<lparr>qty := qty (order_at s r) - min (qty (order_at s a)) (qty (order_at s b)),
      totalFilled := totalFilled (order_at s r) + min (qty (order_at s a)) (qty (order_at s b)),
      firstfillnode := firstfillnode (order_at s r) @
         [\<lparr>fill_price = price (order_at s a),
           fill_qty = min (qty (order_at s a)) (qty (order_at s b)), fill_ts = clock s\<rparr>],
      open := open (order_at s r) \<and> qty (order_at s r) - min (qty (order_at s a)) (qty (order_at s b)) \<noteq> 0\<rparr>
     else order_at s r)"
  using assms by (simp add: cross_unfold Let_def cross_record_fill_order cross_decrement_order)


lemma AllOrders_cross:
  "AllOrders (cross a b s) r =
     (if r = a \<or> r = b then Some (order_at (cross a b s) r) else AllOrders s r)"
  by (simp add: cross_unfold Let_def AllOrders_cross_record_fill AllOrders_cross_decrement)

lemma cross_positions_self:
  "name (account_at s (account (order_at s a))) = name (account_at s (account (order_at s b)))
   \<Longrightarrow> cross_positions a b q p s = s"
  by (simp add: cross_positions_def)

lemma cross_record_fill_static [simp]:
  "account (order_at (cross_record_fill a b f s) r) = account (order_at s r)"
  "price (order_at (cross_record_fill a b f s) r) = price (order_at s r)"
  "direction (order_at (cross_record_fill a b f s) r) = direction (order_at s r)"
  "orderType (order_at (cross_record_fill a b f s) r) = orderType (order_at s r)"
  "order_id (order_at (cross_record_fill a b f s) r) = order_id (order_at s r)"
  "originalQty (order_at (cross_record_fill a b f s) r) = originalQty (order_at s r)"
  by (simp_all add: cross_record_fill_def Let_def)

lemma cross_decrement_static [simp]:
  "account (order_at (cross_decrement a b q s) r) = account (order_at s r)"
  "price (order_at (cross_decrement a b q s) r) = price (order_at s r)"
  "direction (order_at (cross_decrement a b q s) r) = direction (order_at s r)"
  "orderType (order_at (cross_decrement a b q s) r) = orderType (order_at s r)"
  "order_id (order_at (cross_decrement a b q s) r) = order_id (order_at s r)"
  "originalQty (order_at (cross_decrement a b q s) r) = originalQty (order_at s r)"
  by (simp_all add: cross_decrement_def Let_def)

lemma cross_static [simp]:
  "account (order_at (cross a b s) r) = account (order_at s r)"
  "price (order_at (cross a b s) r) = price (order_at s r)"
  "direction (order_at (cross a b s) r) = direction (order_at s r)"
  "orderType (order_at (cross a b s) r) = orderType (order_at s r)"
  "order_id (order_at (cross a b s) r) = order_id (order_at s r)"
  "originalQty (order_at (cross a b s) r) = originalQty (order_at s r)"
  by (simp_all add: cross_unfold Let_def)

lemma cross_Quote:
  "Quote (cross a b s) =
     (Quote s)\<lparr>last_price := price (order_at s a),
               lastSize := min (qty (order_at s a)) (qty (order_at s b)),
               lastTrade := Some (clock s + 1)\<rparr>"
  by (simp add: cross_unfold Let_def)

lemma cross_self_accounts:
  assumes "name (account_at s (account (order_at s a))) = name (account_at s (account (order_at s b)))"
  shows "AllAccounts (cross a b s) = AllAccounts s"
  using assms by (simp add: cross_unfold Let_def cross_positions_self)

section \<open>The ledger update\<close>

lemma int32_product_bound:
  fixes p q :: int
  assumes "0 \<le> p" "p \<le> 2147483647" "0 \<le> q" "q \<le> 2147483647"
  shows "0 \<le> p * q" and "p * q \<le> 4611686014132420609"
proof -
  show "0 \<le> p * q" using assms by simp
  have "p * q \<le> 2147483647 * 2147483647"
    using assms by (intro mult_mono) simp_all
  then show "p * q \<le> 4611686014132420609" by simp
qed

lemma update_shares_clamp:
  assumes "- 2147483647 \<le> sh" "sh \<le> 2147483647" "0 \<le> quantity" "quantity \<le> 2147483647"
  shows "update_shares sh quantity dir = clamp32 (if dir = BUY then sh + quantity else sh - quantity)"
proof -
  have a: "int64_of (sh + quantity) = sh + quantity" using assms by (intro int64_of_id) simp_all
  have b: "int64_of (sh - quantity) = sh - quantity" using assms by (intro int64_of_id) simp_all
  show ?thesis
    using assms unfolding update_shares_def a b clamp32_def Let_def
    by (auto simp: int32_of_id)
qed

lemma update_cents_clamp:
  assumes "- 2147483647 \<le> ce" "ce \<le> 2147483647" "0 \<le> quantity" "quantity \<le> 2147483647"
    "0 \<le> p" "p \<le> 2147483647"
  shows "update_cents ce quantity p dir = clamp32 (if dir = BUY then ce - p * quantity else ce + p * quantity)"
proof -
  note pq = int32_product_bound[OF assms(5,6,3,4)]
  have m: "int64_of (p * quantity) = p * quantity" using pq by (intro int64_of_id) linarith+
  have a: "int64_of (ce + p * quantity) = ce + p * quantity" using assms(1,2) pq by (intro int64_of_id) linarith+
  have b: "int64_of (ce - p * quantity) = ce - p * quantity" using assms(1,2) pq by (intro int64_of_id) linarith+
  have c: "ce - p * quantity \<le> 2147483647" "- 2147483647 \<le> ce + p * quantity"
    using assms(1,2) pq by linarith+
  show ?thesis
    using c unfolding update_cents_def m a b clamp32_def Let_def
    by (auto simp: int32_of_id)
qed

text \<open>
  Claim C4. A ledger update of an account with a fill quantity and price (both
  non-negative C \<^verbatim>\<open>int\<close>s), the account's shares and cents within the clamp range: the
  shares go up by the quantity on a buy and down otherwise, the cents down by price times
  quantity on a buy and up otherwise, each clamped to \<open>[-2147483647, 2147483647]\<close>; the
  product and the sums are exact (no 64-bit wrap), and \<open>posmin\<close> and \<open>posmax\<close> are
  the minimum and maximum with the clamped shares.
\<close>

theorem update_account_clamps:
  assumes "AllAccounts s a = Some acc"
    and "- 2147483647 \<le> shares acc \<and> shares acc \<le> 2147483647"
    and "- 2147483647 \<le> cents acc \<and> cents acc \<le> 2147483647"
    and "0 \<le> quantity \<and> quantity \<le> 2147483647"
    and "0 \<le> p \<and> p \<le> 2147483647"
  shows "\<exists>acc'. AllAccounts (update_account a quantity p dir s) a = Some acc' \<and>
           shares acc' = clamp32 (if dir = BUY then shares acc + quantity else shares acc - quantity) \<and>
           cents acc' = clamp32 (if dir = BUY then cents acc - p * quantity else cents acc + p * quantity) \<and>
           posmin acc' = min (posmin acc) (shares acc') \<and>
           posmax acc' = max (posmax acc) (shares acc') \<and>
           name acc' = name acc \<and> orders acc' = orders acc"
proof -
  have sh: "update_shares (shares acc) quantity dir =
      clamp32 (if dir = BUY then shares acc + quantity else shares acc - quantity)"
    using assms by (intro update_shares_clamp) simp_all
  have ce: "update_cents (cents acc) quantity p dir =
      clamp32 (if dir = BUY then cents acc - p * quantity else cents acc + p * quantity)"
    using assms by (intro update_cents_clamp) simp_all
  have st: "AllAccounts (update_account a quantity p dir s) a =
      Some (update_account_struct acc quantity p dir)"
    using assms(1) by (simp add: update_account_def account_at_def)
  have f1: "shares (update_account_struct acc quantity p dir) = update_shares (shares acc) quantity dir"
    and f2: "cents (update_account_struct acc quantity p dir) = update_cents (cents acc) quantity p dir"
    and f3: "posmin (update_account_struct acc quantity p dir) =
        min (posmin acc) (update_shares (shares acc) quantity dir)"
    and f4: "posmax (update_account_struct acc quantity p dir) =
        max (posmax acc) (update_shares (shares acc) quantity dir)"
    and f5: "name (update_account_struct acc quantity p dir) = name acc"
    and f6: "orders (update_account_struct acc quantity p dir) = orders acc"
    by (simp_all add: update_account_struct_def Let_def min_def max_def)
  show ?thesis
    unfolding st using sh ce by (simp add: f1 f2 f3 f4 f5 f6)
qed

theorem update_account_clamps_witness:
  "\<exists>acc'. AllAccounts (update_account 0 60 5000 BUY incoming_ask_state) 0 = Some acc' \<and>
      shares acc' = 60 \<and> cents acc' = - 300000 \<and> posmin acc' = 0 \<and> posmax acc' = 60"
  using update_account_clamps [of incoming_ask_state 0
      "\<lparr>name = ''A'', orders = [0], posmin = 0, posmax = 0, shares = 0, cents = 0\<rparr>" 60 5000 BUY]
  by (auto simp add: incoming_ask_state_def resting_bid_state_def clamp32_def)

section \<open>A single cross\<close>

text \<open>
  Claim C2. A cross of a standing and an incoming order (two different stored orders)
  fills \<open>q = min (qty standing) (qty incoming)\<close> at the standing order's price, whatever
  the type of the incoming order: both \<open>qty\<close> fields go down by \<open>q\<close>, both
  \<open>totalFilled\<close> fields up by \<open>q\<close>, the fill \<open>(price, q, ts)\<close> is appended to both
  fill sequences, and an order whose \<open>qty\<close> reaches 0 is closed (the flag of the other
  one stays as it was).
\<close>

theorem cross_fill:
  assumes "AllOrders s standing = Some so" and "AllOrders s incoming = Some io"
    and "standing \<noteq> incoming"
  shows "AllOrders (cross standing incoming s) standing =
           Some (so\<lparr>qty := qty so - min (qty so) (qty io),
                   totalFilled := totalFilled so + min (qty so) (qty io),
                   firstfillnode := firstfillnode so @
                     [\<lparr>fill_price = price so, fill_qty = min (qty so) (qty io), fill_ts = clock s\<rparr>],
                   open := open so \<and> qty so - min (qty so) (qty io) \<noteq> 0\<rparr>) \<and>
         AllOrders (cross standing incoming s) incoming =
           Some (io\<lparr>qty := qty io - min (qty so) (qty io),
                   totalFilled := totalFilled io + min (qty so) (qty io),
                   firstfillnode := firstfillnode io @
                     [\<lparr>fill_price = price so, fill_qty = min (qty so) (qty io), fill_ts = clock s\<rparr>],
                   open := open io \<and> qty io - min (qty so) (qty io) \<noteq> 0\<rparr>)"
proof -
  have a: "order_at s standing = so" and b: "order_at s incoming = io"
    using assms by (simp_all add: order_at_def)
  show ?thesis
    using assms(3) by (simp add: AllOrders_cross cross_order_at a b)
qed

theorem cross_fill_witness:
  "AllOrders (cross 0 1 incoming_ask_state) 0 =
     Some (example_bid\<lparr>qty := 40, totalFilled := 60,
             firstfillnode := [\<lparr>fill_price = 5000, fill_qty = 60, fill_ts = 4\<rparr>]\<rparr>) \<and>
   AllOrders (cross 0 1 incoming_ask_state) 1 =
     Some (example_ask 1\<lparr>qty := 0, totalFilled := 60,
             firstfillnode := [\<lparr>fill_price = 5000, fill_qty = 60, fill_ts = 4\<rparr>],
             open := False\<rparr>)"
  using cross_fill [of incoming_ask_state 0 example_bid 1 "example_ask 1"]
  by (simp add: incoming_ask_state_def resting_bid_state_def example_bid_def example_ask_def)

text \<open>
  Claim C6. When the accounts of the two orders of a cross have the same name, the cross
  leaves every account as it was (shares, cents, posmin, posmax); the fill is appended to
  both orders and the last-trade fields of the quote are set.
\<close>

theorem cross_self_trade:
  assumes "AllOrders s standing = Some so" and "AllOrders s incoming = Some io"
    and "standing \<noteq> incoming"
    and "AllAccounts s (account so) = Some sa" and "AllAccounts s (account io) = Some ia"
    and "name sa = name ia"
  shows "AllAccounts (cross standing incoming s) = AllAccounts s \<and>
         firstfillnode (order_at (cross standing incoming s) standing) =
           firstfillnode so @
             [\<lparr>fill_price = price so, fill_qty = min (qty so) (qty io), fill_ts = clock s\<rparr>] \<and>
         firstfillnode (order_at (cross standing incoming s) incoming) =
           firstfillnode io @
             [\<lparr>fill_price = price so, fill_qty = min (qty so) (qty io), fill_ts = clock s\<rparr>] \<and>
         last_price (Quote (cross standing incoming s)) = price so \<and>
         lastSize (Quote (cross standing incoming s)) = min (qty so) (qty io) \<and>
         lastTrade (Quote (cross standing incoming s)) = Some (clock s + 1)"
proof -
  have a: "order_at s standing = so" and b: "order_at s incoming = io"
    using assms by (simp_all add: order_at_def)
  have n: "name (account_at s (account (order_at s standing))) =
           name (account_at s (account (order_at s incoming)))"
    using assms by (simp add: a b account_at_def)
  show ?thesis
    using assms(3) by (simp add: cross_self_accounts[OF n] cross_order_at cross_Quote a b)
qed

theorem cross_self_trade_witness:
  "AllAccounts (cross 0 1 incoming_self_state) = AllAccounts incoming_self_state \<and>
   firstfillnode (order_at (cross 0 1 incoming_self_state) 0) =
     [\<lparr>fill_price = 5000, fill_qty = 60, fill_ts = 4\<rparr>] \<and>
   firstfillnode (order_at (cross 0 1 incoming_self_state) 1) =
     [\<lparr>fill_price = 5000, fill_qty = 60, fill_ts = 4\<rparr>] \<and>
   last_price (Quote (cross 0 1 incoming_self_state)) = 5000 \<and>
   lastSize (Quote (cross 0 1 incoming_self_state)) = 60 \<and>
   lastTrade (Quote (cross 0 1 incoming_self_state)) = Some 5"
  using cross_self_trade [of incoming_self_state 0 example_bid 1 "example_ask 0"
      "\<lparr>name = ''A'', orders = [0, 1], posmin = 0, posmax = 0, shares = 0, cents = 0\<rparr>"
      "\<lparr>name = ''A'', orders = [0, 1], posmin = 0, posmax = 0, shares = 0, cents = 0\<rparr>"]
  by (simp add: incoming_self_state_def resting_bid_state_def example_bid_def example_ask_def)

section \<open>Validation of an order\<close>

lemma next_id_no_iterate: "next_id True s = (if next_id_static s = MAXORDERS then MAXORDERS else next_id_static s, s)"
  by (simp add: next_id_def)

text \<open>
  Claim C5. \<^verbatim>\<open>execute_order\<close> checks, in this order, the id cap (error
  \<open>TOO_MANY_ORDERS\<close>), the account number (\<open>TOO_HIGH_ACCOUNT\<close> from 5000 on) and the
  values (\<open>SILLY_VALUE\<close> for a negative price, a quantity below 1, a direction that is
  neither buy nor sell). A rejected order leaves the whole state as it was: no id is
  taken, no account created, nothing of the book, the quote or the orders changes. An
  order that passes the three checks is not rejected: whenever the function returns, it
  returns the order with the next id.
\<close>

theorem execute_order_validation:
  "(next_id_static s \<ge> MAXORDERS \<or> account_int \<ge> MAXACCOUNTS \<or> p < 0 \<or> q < 1 \<or>
      (dir \<noteq> BUY \<and> dir \<noteq> SELL) \<longrightarrow>
    execute_order nm account_int q p dir otype s =
      Some (\<lparr>oe_order = None,
             oe_error = (if next_id_static s \<ge> MAXORDERS then TOO_MANY_ORDERS
                         else if account_int \<ge> MAXACCOUNTS then TOO_HIGH_ACCOUNT
                         else SILLY_VALUE)\<rparr>, s)) \<and>
   (\<not> (next_id_static s \<ge> MAXORDERS \<or> account_int \<ge> MAXACCOUNTS \<or> p < 0 \<or> q < 1 \<or>
      (dir \<noteq> BUY \<and> dir \<noteq> SELL)) \<longrightarrow>
    (\<forall>r s'. execute_order nm account_int q p dir otype s = Some (r, s') \<longrightarrow>
       oe_error r = 0 \<and> oe_order r = Some (next_id_static s)))"
proof -
  let ?A = "next_id_static s \<ge> MAXORDERS \<or> account_int \<ge> MAXACCOUNTS \<or> p < 0 \<or> q < 1 \<or>
      (dir \<noteq> BUY \<and> dir \<noteq> SELL)"
  have rejected: "execute_order nm account_int q p dir otype s =
      Some (\<lparr>oe_order = None,
             oe_error = (if next_id_static s \<ge> MAXORDERS then TOO_MANY_ORDERS
                         else if account_int \<ge> MAXACCOUNTS then TOO_HIGH_ACCOUNT
                         else SILLY_VALUE)\<rparr>, s)" if ?A
    using that unfolding execute_order_def next_id_no_iterate by auto
  have accepted: "oe_error r = 0 \<and> oe_order r = Some (next_id_static s)"
    if ok: "\<not> ?A" and ex: "execute_order nm account_int q p dir otype s = Some (r, s')" for r s'
  proof -
    from ok have v: "\<not> fst (next_id True s) \<ge> MAXORDERS" "\<not> account_int \<ge> MAXACCOUNTS"
      "\<not> (p < 0 \<or> q < 1 \<or> (dir \<noteq> SELL \<and> dir \<noteq> BUY))"
      by (auto simp: next_id_no_iterate)
    from ex obtain i s4 where c: "execute_order_create nm account_int q p dir otype s = Some (i, s4)"
      and r: "r = \<lparr>oe_order = Some i, oe_error = 0\<rparr>"
      unfolding execute_order_def using v
      by (auto simp: Let_def split: option.splits if_splits)
    from c ok have "i = next_id_static s"
      by (auto simp: execute_order_create_def account_lookup_or_create_def next_id_def
          init_order_def new_timestamp_def Let_def split: if_splits option.splits)
    with r show ?thesis by simp
  qed
  show ?thesis using rejected accepted by blast
qed

theorem execute_order_validation_witness:
  "execute_order ''A'' 5000 0 (- 1) 3 1 (initial_state\<lparr>next_id_static := 2000000000\<rparr>) =
     Some (\<lparr>oe_order = None, oe_error = 1\<rparr>, initial_state\<lparr>next_id_static := 2000000000\<rparr>) \<and>
   execute_order ''A'' 5000 0 (- 1) 3 1 initial_state =
     Some (\<lparr>oe_order = None, oe_error = 3\<rparr>, initial_state) \<and>
   execute_order ''A'' 0 0 5000 1 1 initial_state =
     Some (\<lparr>oe_order = None, oe_error = 2\<rparr>, initial_state) \<and>
   execute_order ''A'' 0 1 5000 3 1 initial_state =
     Some (\<lparr>oe_order = None, oe_error = 2\<rparr>, initial_state)"
  using execute_order_validation [of "initial_state\<lparr>next_id_static := 2000000000\<rparr>" 5000 "- 1" 0 3 "''A''" 1]
    execute_order_validation [of initial_state 5000 "- 1" 0 3 "''A''" 1]
    execute_order_validation [of initial_state 0 5000 0 1 "''A''" 1]
    execute_order_validation [of initial_state 0 5000 1 3 "''A''" 1]
  by (simp add: initial_state_def MAXORDERS_def MAXACCOUNTS_def BUY_def SELL_def
      TOO_MANY_ORDERS_def TOO_HIGH_ACCOUNT_def SILLY_VALUE_def)

section \<open>The walk of the matcher\<close>

lemma walk_static [simp]:
  "price (order_at (walk ns b s) r) = price (order_at s r)"
  "orderType (order_at (walk ns b s) r) = orderType (order_at s r)"
  "direction (order_at (walk ns b s) r) = direction (order_at s r)"
  "order_id (order_at (walk ns b s) r) = order_id (order_at s r)"
  "account (order_at (walk ns b s) r) = account (order_at s r)"
  "originalQty (order_at (walk ns b s) r) = originalQty (order_at s r)"
  by (induction ns arbitrary: s; simp add: Let_def)+

lemma walk_book [simp]:
  "FirstBidLevel (walk ns b s) = FirstBidLevel s"
  "FirstAskLevel (walk ns b s) = FirstAskLevel s"
  "HighestKnownOrder (walk ns b s) = HighestKnownOrder s"
  "next_id_static (walk ns b s) = next_id_static s"
  by (induction ns arbitrary: s; simp add: Let_def)+

lemma run_order_nodes_walk:
  "run_order_nodes ns b s = (ns \<noteq> [] \<and> \<not> open (order_at (walk ns b s) b), walk ns b s)"
  by (induction ns arbitrary: s) (auto simp: Let_def)

lemma walk_append:
  "walk (xs @ ys) b s =
     (if xs \<noteq> [] \<and> \<not> open (order_at (walk xs b s) b) then walk xs b s
      else walk ys b (walk xs b s))"
  by (induction xs arbitrary: s) (auto simp: Let_def)

lemma run_order_levels_walk:
  "run_order_levels selling ls b s =
     walk (concat (map firstordernode
       (takeWhile (\<lambda>l. \<not> ((if selling then level_price l < price (order_at s b)
                             else level_price l > price (order_at s b)) \<and>
                            orderType (order_at s b) \<noteq> MARKET)) ls))) b s"
proof (induction ls arbitrary: s)
  case Nil
  then show ?case by simp
next
  case (Cons l ls)
  show ?case
    by (simp add: run_order_nodes_walk walk_append Cons.IH)
qed


section \<open>Well-formed states are kept\<close>

lemma order_at_Some: "AllOrders s i = Some r \<Longrightarrow> order_at s i = r"
  by (simp add: order_at_def)

lemma AllOrders_order_at: "i \<in> dom (AllOrders s) \<Longrightarrow> AllOrders s i = Some (order_at s i)"
  by (auto simp: order_at_def)

lemma store_ok_iff:
  "store_ok s \<longleftrightarrow>
     0 \<le> next_id_static s \<and> next_id_static s \<le> MAXORDERS \<and>
     HighestKnownOrder s = next_id_static s - 1 \<and>
     (\<forall>i \<in> dom (AllOrders s).
        order_ok (order_at s i) \<and> order_id (order_at s i) = i \<and> 0 \<le> i \<and>
        i < next_id_static s \<and> account (order_at s i) \<in> dom (AllAccounts s))"
  unfolding store_ok_def by (auto simp: order_at_def dom_def)

lemma resting_at_iff:
  "resting_at s bids p n \<longleftrightarrow>
     n \<in> dom (AllOrders s) \<and> orderType (order_at s n) = LIMIT \<and>
     price (order_at s n) = p \<and> direction (order_at s n) = (if bids then BUY else SELL)"
  unfolding resting_at_def by (auto simp: order_at_def dom_def)

lemma side_ok_Nil [simp]: "side_ok s bids []"
  by (simp add: side_ok_def)

lemma side_ok_Cons:
  "side_ok s bids (l # ls) \<longleftrightarrow>
     (\<forall>y \<in> set (map level_price ls). if bids then y < level_price l else level_price l < y) \<and>
     firstordernode l \<noteq> [] \<and>
     (\<forall>n \<in> set (firstordernode l). resting_at s bids (level_price l) n) \<and>
     side_ok s bids ls"
  unfolding side_ok_def by auto

lemma side_ok_iff:
  "side_ok s bids ls \<longleftrightarrow>
     prices_ordered bids (map level_price ls) \<and>
     (\<forall>l \<in> set ls. firstordernode l \<noteq> [] \<and>
        (\<forall>n \<in> set (firstordernode l).
           n \<in> dom (AllOrders s) \<and> orderType (order_at s n) = LIMIT \<and>
           price (order_at s n) = level_price l \<and>
           direction (order_at s n) = (if bids then BUY else SELL)))"
  unfolding side_ok_def resting_at_iff by simp

lemma side_ok_nodes_dom:
  "side_ok s bids ls \<Longrightarrow> set (concat (map firstordernode ls)) \<subseteq> dom (AllOrders s)"
  by (auto simp: side_ok_iff)

lemma chains_ok_nodes_dom: "chains_ok s \<Longrightarrow> set (book_nodes s) \<subseteq> dom (AllOrders s)"
  unfolding chains_ok_def book_nodes_def
  using side_ok_nodes_dom[of s True "FirstBidLevel s"] side_ok_nodes_dom[of s False "FirstAskLevel s"]
  by auto

text \<open>
  A step that keeps the chains, the id counter and the domain of the store, and that
  keeps the identity of every order and the price, type and direction of the resting
  ones, keeps well-formed chains as long as the records stay well formed.
\<close>

lemma side_ok_frame:
  assumes "side_ok s bids ls"
    and "dom (AllOrders s') = dom (AllOrders s)"
    and "\<forall>l \<in> set ls. \<forall>n \<in> set (firstordernode l).
           orderType (order_at s' n) = orderType (order_at s n) \<and>
           price (order_at s' n) = price (order_at s n) \<and>
           direction (order_at s' n) = direction (order_at s n)"
  shows "side_ok s' bids ls"
  unfolding side_ok_iff
proof (intro conjI ballI)
  fix l n assume ln: "l \<in> set ls" "n \<in> set (firstordernode l)"
  from assms(1) ln have old: "n \<in> dom (AllOrders s)" "orderType (order_at s n) = LIMIT"
    "price (order_at s n) = level_price l"
    "direction (order_at s n) = (if bids then BUY else SELL)"
    by (simp_all add: side_ok_iff)
  from assms(3) ln have new: "orderType (order_at s' n) = orderType (order_at s n)"
    "price (order_at s' n) = price (order_at s n)"
    "direction (order_at s' n) = direction (order_at s n)"
    by simp_all
  show "n \<in> dom (AllOrders s')" using old assms(2) by simp
  show "orderType (order_at s' n) = LIMIT" using old new by simp
  show "price (order_at s' n) = level_price l" using old new by simp
  show "direction (order_at s' n) = (if bids then BUY else SELL)" using old new by simp
qed (use assms(1) in \<open>simp_all add: side_ok_iff\<close>)

lemma chains_ok_frame:
  assumes "chains_ok s"
    and "FirstBidLevel s' = FirstBidLevel s" and "FirstAskLevel s' = FirstAskLevel s"
    and "next_id_static s' = next_id_static s" and "HighestKnownOrder s' = HighestKnownOrder s"
    and "dom (AllOrders s') = dom (AllOrders s)"
    and "dom (AllAccounts s) \<subseteq> dom (AllAccounts s')"
    and "\<And>i. i \<in> dom (AllOrders s) \<Longrightarrow>
           order_ok (order_at s' i) \<and> order_id (order_at s' i) = order_id (order_at s i) \<and>
           account (order_at s' i) = account (order_at s i)"
    and "\<And>n. n \<in> set (book_nodes s) \<Longrightarrow>
           orderType (order_at s' n) = orderType (order_at s n) \<and>
           price (order_at s' n) = price (order_at s n) \<and>
           direction (order_at s' n) = direction (order_at s n)"
  shows "chains_ok s'"
proof -
  have st0: "store_ok s" using assms(1) by (simp add: chains_ok_def)
  have st: "store_ok s'"
    unfolding store_ok_iff
  proof (intro conjI ballI)
    fix i assume i: "i \<in> dom (AllOrders s')"
    then have i': "i \<in> dom (AllOrders s)" using assms(6) by simp
    note new = assms(8)[OF i']
    from st0 i' have old: "order_id (order_at s i) = i" "0 \<le> i" "i < next_id_static s"
      "account (order_at s i) \<in> dom (AllAccounts s)"
      by (simp_all add: store_ok_iff)
    show "order_ok (order_at s' i)" using new by simp
    show "order_id (order_at s' i) = i" using new old by simp
    show "0 \<le> i" using old by simp
    show "i < next_id_static s'" using old assms(4) by simp
    show "account (order_at s' i) \<in> dom (AllAccounts s')"
      using new old assms(7) by auto
  qed (use st0 assms(4,5) in \<open>simp_all add: store_ok_iff\<close>)
  have b: "side_ok s' True (FirstBidLevel s')"
    unfolding assms(2)
  proof (rule side_ok_frame[of s, OF _ assms(6)])
    show "side_ok s True (FirstBidLevel s)" using assms(1) by (simp add: chains_ok_def)
    show "\<forall>l \<in> set (FirstBidLevel s). \<forall>n \<in> set (firstordernode l).
           orderType (order_at s' n) = orderType (order_at s n) \<and>
           price (order_at s' n) = price (order_at s n) \<and>
           direction (order_at s' n) = direction (order_at s n)"
    proof (intro ballI)
      fix l n assume "l \<in> set (FirstBidLevel s)" "n \<in> set (firstordernode l)"
      then have "n \<in> set (book_nodes s)" by (auto simp: book_nodes_def)
      then show "orderType (order_at s' n) = orderType (order_at s n) \<and>
           price (order_at s' n) = price (order_at s n) \<and>
           direction (order_at s' n) = direction (order_at s n)" by (rule assms(9))
    qed
  qed
  have a: "side_ok s' False (FirstAskLevel s')"
    unfolding assms(3)
  proof (rule side_ok_frame[of s, OF _ assms(6)])
    show "side_ok s False (FirstAskLevel s)" using assms(1) by (simp add: chains_ok_def)
    show "\<forall>l \<in> set (FirstAskLevel s). \<forall>n \<in> set (firstordernode l).
           orderType (order_at s' n) = orderType (order_at s n) \<and>
           price (order_at s' n) = price (order_at s n) \<and>
           direction (order_at s' n) = direction (order_at s n)"
    proof (intro ballI)
      fix l n assume "l \<in> set (FirstAskLevel s)" "n \<in> set (firstordernode l)"
      then have "n \<in> set (book_nodes s)" by (auto simp: book_nodes_def)
      then show "orderType (order_at s' n) = orderType (order_at s n) \<and>
           price (order_at s' n) = price (order_at s n) \<and>
           direction (order_at s' n) = direction (order_at s n)" by (rule assms(9))
    qed
  qed
  have d: "distinct (book_nodes s')"
    using assms(1,2,3) by (simp add: chains_ok_def book_nodes_def)
  show ?thesis using st a b d by (simp add: chains_ok_def)
qed

subsection \<open>A cross keeps the records well formed\<close>

lemma cross_order_ok:
  assumes "a \<noteq> b" and "order_ok (order_at s a)" and "order_ok (order_at s b)"
    and "order_ok (order_at s r)"
  shows "order_ok (order_at (cross a b s) r)"
  using assms unfolding cross_order_at[OF assms(1)] order_ok_def
  by (auto simp: min_def split: if_splits)

lemma AllAccounts_update_account:
  "AllAccounts (update_account a q p d s) x =
     (if x = a then Some (update_account_struct (account_at s a) q p d) else AllAccounts s x)"
  by (simp add: update_account_def)

lemma dom_AllAccounts_cross_positions:
  "dom (AllAccounts s) \<subseteq> dom (AllAccounts (cross_positions a b q p s))"
  by (auto simp: cross_positions_def AllAccounts_update_account split: if_splits)

lemma dom_AllAccounts_cross_positions':
  "AllAccounts s9 = AllAccounts s \<Longrightarrow>
   dom (AllAccounts s) \<subseteq> dom (AllAccounts (cross_positions a b q p s9))"
  using dom_AllAccounts_cross_positions[of s9 a b q p] by simp

lemma dom_AllAccounts_cross: "dom (AllAccounts s) \<subseteq> dom (AllAccounts (cross a b s))"
  by (simp add: cross_unfold Let_def) (rule dom_AllAccounts_cross_positions', simp)

lemma dom_AllOrders_cross:
  "a \<in> dom (AllOrders s) \<Longrightarrow> b \<in> dom (AllOrders s) \<Longrightarrow>
   dom (AllOrders (cross a b s)) = dom (AllOrders s)"
  by (auto simp: AllOrders_cross dom_def split: if_splits)

lemma cross_other: "r \<noteq> a \<Longrightarrow> r \<noteq> b \<Longrightarrow> order_at (cross a b s) r = order_at s r"
  by (simp add: order_at_def AllOrders_cross)

lemma cross_chains_ok:
  assumes "chains_ok s" and "a \<in> dom (AllOrders s)" and "b \<in> dom (AllOrders s)" and "a \<noteq> b"
  shows "chains_ok (cross a b s)"
proof (rule chains_ok_frame[OF assms(1)])
  show "dom (AllOrders (cross a b s)) = dom (AllOrders s)"
    using assms by (simp add: dom_AllOrders_cross)
  show "dom (AllAccounts s) \<subseteq> dom (AllAccounts (cross a b s))"
    by (rule dom_AllAccounts_cross)
  fix i assume "i \<in> dom (AllOrders s)"
  then show "order_ok (order_at (cross a b s) i) \<and>
      order_id (order_at (cross a b s) i) = order_id (order_at s i) \<and>
      account (order_at (cross a b s) i) = account (order_at s i)"
    using assms by (auto simp: chains_ok_def store_ok_iff intro!: cross_order_ok)
qed simp_all

lemma dom_AllOrders_walk:
  "set ns \<subseteq> dom (AllOrders s) \<Longrightarrow> b \<in> dom (AllOrders s) \<Longrightarrow>
   dom (AllOrders (walk ns b s)) = dom (AllOrders s)"
  by (induction ns arbitrary: s) (auto simp: Let_def dom_AllOrders_cross)

lemma walk_chains_ok:
  "chains_ok s \<Longrightarrow> set ns \<subseteq> dom (AllOrders s) \<Longrightarrow> b \<in> dom (AllOrders s) \<Longrightarrow>
   b \<notin> set ns \<Longrightarrow> chains_ok (walk ns b s)"
proof (induction ns arbitrary: s)
  case Nil
  then show ?case by simp
next
  case (Cons n ns)
  have c: "chains_ok (cross n b s)"
    using Cons.prems by (intro cross_chains_ok) auto
  have d: "dom (AllOrders (cross n b s)) = dom (AllOrders s)"
    using Cons.prems by (intro dom_AllOrders_cross) auto
  show ?case
    using Cons.prems c d Cons.IH[of "cross n b s"] by (auto simp: Let_def)
qed

lemma walk_other:
  "r \<notin> set ns \<Longrightarrow> r \<noteq> b \<Longrightarrow> order_at (walk ns b s) r = order_at s r"
  by (induction ns arbitrary: s) (auto simp: Let_def cross_other)

lemma dom_AllAccounts_walk: "dom (AllAccounts s) \<subseteq> dom (AllAccounts (walk ns b s))"
proof (induction ns arbitrary: s)
  case Nil
  then show ?case by simp
next
  case (Cons n ns)
  show ?case
    using dom_AllAccounts_cross[of s n b] Cons.IH[of "cross n b s"]
    by (auto simp: Let_def)
qed

subsection \<open>The closed orders after a walk are a prefix\<close>

lemma cross_incoming_open_standing_closed:
  assumes "a \<noteq> b" and "open (order_at (cross a b s) b)"
  shows "\<not> open (order_at (cross a b s) a)"
  using assms by (auto simp: cross_order_at min_def split: if_splits)

lemma dropWhile_all_open:
  "\<forall>n \<in> set ns. \<not> P n \<Longrightarrow> dropWhile P ns = ns"
  by (cases ns) auto

lemma walk_closed_prefix:
  assumes "distinct ns" and "b \<notin> set ns" and "\<forall>n \<in> set ns. open (order_at s n)"
  shows "\<forall>n \<in> set (dropWhile (\<lambda>n. \<not> open (order_at (walk ns b s) n)) ns).
           open (order_at (walk ns b s) n)"
  using assms
proof (induction ns arbitrary: s)
  case Nil
  then show ?case by simp
next
  case (Cons n ns)
  let ?s1 = "cross n b s"
  have nb: "n \<noteq> b" and nn: "n \<notin> set ns" using Cons.prems by auto
  have rest: "\<forall>m \<in> set ns. open (order_at ?s1 m)"
  proof
    fix m assume m: "m \<in> set ns"
    then have "m \<noteq> n" "m \<noteq> b" using nn Cons.prems by auto
    then have "order_at ?s1 m = order_at s m" by (rule cross_other)
    moreover have "open (order_at s m)" using m Cons.prems(3) by simp
    ultimately show "open (order_at ?s1 m)" by simp
  qed
  show ?case
  proof (cases "open (order_at ?s1 b)")
    case True
    have "\<not> open (order_at ?s1 n)"
      using cross_incoming_open_standing_closed[OF nb True] .
    then have closed: "\<not> open (order_at (walk ns b ?s1) n)"
      using nn nb by (simp add: walk_other)
    have ih: "\<forall>m \<in> set (dropWhile (\<lambda>m. \<not> open (order_at (walk ns b ?s1) m)) ns).
        open (order_at (walk ns b ?s1) m)"
    proof (rule Cons.IH)
      show "distinct ns" using Cons.prems(1) by simp
      show "b \<notin> set ns" using Cons.prems(2) by simp
      show "\<forall>n \<in> set ns. open (order_at ?s1 n)" by (rule rest)
    qed
    have w: "walk (n # ns) b s = walk ns b ?s1" using True by (simp add: Let_def)
    have dw: "dropWhile (\<lambda>m. \<not> open (order_at (walk ns b ?s1) m)) (n # ns) =
        dropWhile (\<lambda>m. \<not> open (order_at (walk ns b ?s1) m)) ns"
      using closed by simp
    show ?thesis unfolding w dw by (rule ih)
  next
    case False
    have dw: "dropWhile (\<lambda>m. \<not> open (order_at ?s1 m)) ns = ns"
      using rest by (intro dropWhile_all_open) simp
    have w: "walk (n # ns) b s = ?s1" using False by (simp add: Let_def)
    have "set (dropWhile (\<lambda>m. \<not> open (order_at ?s1 m)) (n # ns)) \<subseteq>
        (if open (order_at ?s1 n) then {n} else {}) \<union> set ns"
      by (simp add: dw)
    moreover have "\<forall>m \<in> (if open (order_at ?s1 n) then {n} else {}) \<union> set ns.
        open (order_at ?s1 m)"
      using rest by simp
    ultimately show ?thesis unfolding w by blast
  qed
qed

subsection \<open>Cleaning a side\<close>

lemma cleanup_nodes:
  "cleanup_closed_bids_or_asks s ls = Some ls' \<Longrightarrow>
   concat (map firstordernode ls') =
     dropWhile (\<lambda>n. \<not> open (order_at s n)) (concat (map firstordernode ls))"
proof (induction ls arbitrary: ls')
  case Nil
  then show ?case by simp
next
  case (Cons l ls)
  let ?P = "\<lambda>n. \<not> open (order_at s n)"
  from Cons.prems have ne: "firstordernode l \<noteq> []" by (auto split: if_splits)
  show ?case
  proof (cases "dropWhile ?P (firstordernode l)")
    case Nil
    then have all: "\<And>x. x \<in> set (firstordernode l) \<Longrightarrow> ?P x"
      by (simp add: dropWhile_eq_Nil_conv)
    from Cons.prems ne Nil have "cleanup_closed_bids_or_asks s ls = Some ls'" by simp
    then have "concat (map firstordernode ls') = dropWhile ?P (concat (map firstordernode ls))"
      by (rule Cons.IH)
    then show ?thesis using dropWhile_append2[of "firstordernode l" ?P, OF all] by simp
  next
    case (Cons n ns)
    with Cons.prems ne have ls': "ls' = l\<lparr>firstordernode := n # ns\<rparr> # ls" by simp
    have "n \<in> set (firstordernode l)" "\<not> ?P n"
      using Cons set_dropWhileD[of n ?P "firstordernode l"] hd_dropWhile[of ?P "firstordernode l"]
      by auto
    then have "dropWhile ?P (firstordernode l @ concat (map firstordernode ls)) =
        dropWhile ?P (firstordernode l) @ concat (map firstordernode ls)"
      by (rule dropWhile_append1)
    then show ?thesis using ls' Cons by simp
  qed
qed

lemma cleanup_Some:
  "\<forall>l \<in> set ls. firstordernode l \<noteq> [] \<Longrightarrow> \<exists>ls'. cleanup_closed_bids_or_asks s ls = Some ls'"
  by (induction ls) (auto split: list.splits)

lemma cleanup_side_ok:
  "side_ok s bids ls \<Longrightarrow> cleanup_closed_bids_or_asks s ls = Some ls' \<Longrightarrow> side_ok s bids ls'"
proof (induction ls arbitrary: ls')
  case Nil
  then show ?case by simp
next
  case (Cons l ls)
  let ?P = "\<lambda>n. \<not> open (order_at s n)"
  from Cons.prems have ne: "firstordernode l \<noteq> []" by (auto split: if_splits)
  from Cons.prems(1) have tl: "side_ok s bids ls" by (simp add: side_ok_Cons)
  show ?case
  proof (cases "dropWhile ?P (firstordernode l)")
    case Nil
    with Cons.prems ne have "cleanup_closed_bids_or_asks s ls = Some ls'" by simp
    with tl show ?thesis by (rule Cons.IH)
  next
    case (Cons n ns)
    with Cons.prems ne have ls': "ls' = l\<lparr>firstordernode := n # ns\<rparr> # ls" by simp
    have sub: "set (n # ns) \<subseteq> set (firstordernode l)"
      using set_dropWhileD[of _ ?P "firstordernode l"] unfolding Cons by blast
    show ?thesis
      unfolding ls' using Cons.prems(1) sub by (auto simp: side_ok_Cons)
  qed
qed

lemma cleanup_open:
  assumes "cleanup_closed_bids_or_asks s ls = Some ls'"
    and "\<forall>n \<in> set (dropWhile (\<lambda>n. \<not> open (order_at s n)) (concat (map firstordernode ls))).
           open (order_at s n)"
  shows "\<forall>n \<in> set (concat (map firstordernode ls')). open (order_at s n)"
  using assms(2) unfolding cleanup_nodes[OF assms(1)] .

lemma cleanup_suffix:
  assumes "cleanup_closed_bids_or_asks s ls = Some ls'"
  shows "\<exists>pre. concat (map firstordernode ls) = pre @ concat (map firstordernode ls')"
  unfolding cleanup_nodes[OF assms]
  by (metis takeWhile_dropWhile_id)

lemma cleanup_all_open:
  assumes "\<forall>l \<in> set ls. firstordernode l \<noteq> []"
    and "\<forall>n \<in> set (concat (map firstordernode ls)). open (order_at s n)"
  shows "cleanup_closed_bids_or_asks s ls = Some ls"
proof (cases ls)
  case Nil
  then show ?thesis by simp
next
  case (Cons l rest)
  then obtain n ns where n: "firstordernode l = n # ns" using assms(1) by (cases "firstordernode l") auto
  then have "open (order_at s n)" using assms(2) Cons by simp
  then show ?thesis using Cons n by simp
qed

subsection \<open>Inserting a resting order\<close>

lemma insert_level_Some:
  "\<forall>l \<in> set ls. firstordernode l \<noteq> [] \<Longrightarrow> \<exists>ls'. insert_level asks p n ls = Some ls'"
  by (induction ls) auto

lemma insert_level_prices:
  "insert_level asks p n ls = Some ls' \<Longrightarrow>
   set (map level_price ls') = insert p (set (map level_price ls))"
proof (induction ls arbitrary: ls')
  case Nil
  then show ?case by auto
next
  case (Cons l ls)
  show ?case
  proof (cases "(if asks then p < level_price l else p > level_price l) \<or> p = level_price l")
    case True
    then show ?thesis using Cons.prems by (auto split: if_splits)
  next
    case False
    then obtain ls'' where r: "insert_level asks p n ls = Some ls''" and ls': "ls' = l # ls''"
      using Cons.prems(1) by (auto split: if_splits)
    have "set (map level_price ls'') = insert p (set (map level_price ls))"
      using r by (rule Cons.IH)
    then show ?thesis unfolding ls' by auto
  qed
qed

lemma insert_level_nodes:
  "insert_level asks p n ls = Some ls' \<Longrightarrow>
   set (concat (map firstordernode ls')) = insert n (set (concat (map firstordernode ls)))"
proof (induction ls arbitrary: ls')
  case Nil
  then show ?case by auto
next
  case (Cons l ls)
  show ?case
  proof (cases "(if asks then p < level_price l else p > level_price l) \<or> p = level_price l")
    case True
    then show ?thesis using Cons.prems by (auto split: if_splits)
  next
    case False
    then obtain ls'' where r: "insert_level asks p n ls = Some ls''" and ls': "ls' = l # ls''"
      using Cons.prems(1) by (auto split: if_splits)
    have "set (concat (map firstordernode ls'')) = insert n (set (concat (map firstordernode ls)))"
      using r by (rule Cons.IH)
    then show ?thesis unfolding ls' by auto
  qed
qed

lemma insert_level_distinct:
  "insert_level asks p n ls = Some ls' \<Longrightarrow> distinct (concat (map firstordernode ls)) \<Longrightarrow>
   n \<notin> set (concat (map firstordernode ls)) \<Longrightarrow> distinct (concat (map firstordernode ls'))"
proof (induction ls arbitrary: ls')
  case Nil
  then show ?case by auto
next
  case (Cons l ls)
  show ?case
  proof (cases "(if asks then p < level_price l else p > level_price l) \<or> p = level_price l")
    case True
    then show ?thesis using Cons.prems by (auto split: if_splits)
  next
    case False
    then obtain ls'' where r: "insert_level asks p n ls = Some ls''" and ls': "ls' = l # ls''"
      using Cons.prems(1) by (auto split: if_splits)
    have d: "distinct (concat (map firstordernode ls''))"
    proof (rule Cons.IH[OF r])
      show "distinct (concat (map firstordernode ls))" using Cons.prems(2) by simp
      show "n \<notin> set (concat (map firstordernode ls))" using Cons.prems(3) by simp
    qed
    have s: "set (concat (map firstordernode ls'')) = insert n (set (concat (map firstordernode ls)))"
      using r by (rule insert_level_nodes)
    have "set (firstordernode l) \<inter> set (concat (map firstordernode ls'')) = {}"
      unfolding s using Cons.prems(2,3) by auto
    moreover have "distinct (firstordernode l)" using Cons.prems(2) by simp
    ultimately show ?thesis unfolding ls' using d by simp
  qed
qed

lemma insert_level_side_ok:
  assumes "side_ok s (\<not> asks) ls" and "resting_at s (\<not> asks) p n"
    and "insert_level asks p n ls = Some ls'"
  shows "side_ok s (\<not> asks) ls'"
  using assms
proof (induction ls arbitrary: ls')
  case Nil
  then show ?case by (auto simp: side_ok_Cons)
next
  case (Cons l ls)
  show ?case
  proof (cases "(if asks then p < level_price l else p > level_price l) \<or> p = level_price l")
    case True
    then show ?thesis using Cons.prems
      by (auto simp: side_ok_Cons split: if_splits; fastforce)
  next
    case False
    then obtain ls'' where r: "insert_level asks p n ls = Some ls''" and ls': "ls' = l # ls''"
      using Cons.prems(3) by (auto split: if_splits)
    have tl: "side_ok s (\<not> asks) ls''"
    proof (rule Cons.IH[OF _ Cons.prems(2) r])
      show "side_ok s (\<not> asks) ls" using Cons.prems(1) by (simp add: side_ok_Cons)
    qed
    have pr: "set (map level_price ls'') = insert p (set (map level_price ls))"
      using r by (rule insert_level_prices)
    show ?thesis unfolding ls' side_ok_Cons pr
      using tl Cons.prems(1) False by (auto simp: side_ok_Cons)
  qed
qed

subsection \<open>Steps that do not touch the book or the store\<close>

lemma side_ok_cong:
  "AllOrders s' = AllOrders s \<Longrightarrow> side_ok s' bids ls = side_ok s bids ls"
  by (simp add: side_ok_def resting_at_def)

lemma chains_ok_cong:
  assumes "FirstBidLevel s' = FirstBidLevel s" and "FirstAskLevel s' = FirstAskLevel s"
    and "AllOrders s' = AllOrders s" and "AllAccounts s' = AllAccounts s"
    and "next_id_static s' = next_id_static s" and "HighestKnownOrder s' = HighestKnownOrder s"
  shows "chains_ok s' = chains_ok s"
  unfolding chains_ok_def store_ok_def book_nodes_def side_ok_cong[OF assms(3)]
  by (simp add: assms)

lemma book_ok_cong:
  assumes "FirstBidLevel s' = FirstBidLevel s" and "FirstAskLevel s' = FirstAskLevel s"
    and "AllOrders s' = AllOrders s" and "AllAccounts s' = AllAccounts s"
    and "next_id_static s' = next_id_static s" and "HighestKnownOrder s' = HighestKnownOrder s"
  shows "book_ok s' = book_ok s"
  unfolding book_ok_def chains_ok_cong[OF assms] book_nodes_def order_at_def
  by (simp add: assms)

lemma remake_most_of_quote_fields [simp]:
  "FirstBidLevel (remake_most_of_quote s) = FirstBidLevel s"
  "FirstAskLevel (remake_most_of_quote s) = FirstAskLevel s"
  "HighestKnownOrder (remake_most_of_quote s) = HighestKnownOrder s"
  "AllOrders (remake_most_of_quote s) = AllOrders s"
  "AllAccounts (remake_most_of_quote s) = AllAccounts s"
  "next_id_static (remake_most_of_quote s) = next_id_static s"
  "clock (remake_most_of_quote s) = clock s + 1"
  "stderr_out (remake_most_of_quote s) = stderr_out s"
  "order_at (remake_most_of_quote s) = order_at s"
  "account_at (remake_most_of_quote s) = account_at s"
  by (simp_all add: remake_most_of_quote_def new_timestamp_def Let_def order_at_def
      account_at_def fun_eq_iff)

lemma create_ticker_message_fields [simp]:
  "FirstBidLevel (create_ticker_message s) = FirstBidLevel s"
  "FirstAskLevel (create_ticker_message s) = FirstAskLevel s"
  "HighestKnownOrder (create_ticker_message s) = HighestKnownOrder s"
  "AllOrders (create_ticker_message s) = AllOrders s"
  "AllAccounts (create_ticker_message s) = AllAccounts s"
  "Quote (create_ticker_message s) = Quote s"
  "next_id_static (create_ticker_message s) = next_id_static s"
  "clock (create_ticker_message s) = clock s"
  "stderr_out (create_ticker_message s) = stderr_out s @ [TICKER (Quote s)]"
  "order_at (create_ticker_message s) = order_at s"
  "account_at (create_ticker_message s) = account_at s"
  by (simp_all add: create_ticker_message_def order_at_def account_at_def fun_eq_iff)

lemma execute_order_ticker_fields [simp]:
  "FirstBidLevel (execute_order_ticker i s) = FirstBidLevel s"
  "FirstAskLevel (execute_order_ticker i s) = FirstAskLevel s"
  "HighestKnownOrder (execute_order_ticker i s) = HighestKnownOrder s"
  "AllOrders (execute_order_ticker i s) = AllOrders s"
  "AllAccounts (execute_order_ticker i s) = AllAccounts s"
  "next_id_static (execute_order_ticker i s) = next_id_static s"
  "order_at (execute_order_ticker i s) = order_at s"
  by (simp_all add: execute_order_ticker_def)

lemma book_ok_ticker [simp]: "book_ok (execute_order_ticker i s) = book_ok s"
  by (rule book_ok_cong) simp_all

subsection \<open>Creating the order\<close>

text \<open>The state in which the new order stands in the store, before it is run.\<close>

lemma execute_order_create_result:
  assumes "0 \<le> account_int" and "next_id_static s \<noteq> MAXORDERS"
  shows "\<exists>s4. execute_order_create nm account_int q p dir otype s = Some (next_id_static s, s4) \<and>
     FirstBidLevel s4 = FirstBidLevel s \<and> FirstAskLevel s4 = FirstAskLevel s \<and>
     Quote s4 = Quote s \<and> stderr_out s4 = stderr_out s \<and>
     next_id_static s4 = next_id_static s + 1 \<and> HighestKnownOrder s4 = next_id_static s \<and>
     AllOrders s4 = (AllOrders s)(next_id_static s \<mapsto>
        \<lparr>direction = dir, originalQty = q, qty = q, price = p, orderType = otype,
         order_id = next_id_static s, account = account_int, ts = clock s,
         firstfillnode = [], totalFilled = 0, open = True\<rparr>) \<and>
     dom (AllAccounts s4) = insert account_int (dom (AllAccounts s))"
  using assms
  by (auto simp: execute_order_create_def account_lookup_or_create_def next_id_def
      init_order_def new_timestamp_def add_order_to_account_def account_at_def Let_def
      split: option.splits)

lemma side_ok_store_grows:
  assumes "side_ok s bids ls" and "i \<notin> dom (AllOrders s)"
    and "AllOrders s' = (AllOrders s)(i \<mapsto> r)"
  shows "side_ok s' bids ls"
proof -
  have "resting_at s' bids p n" if "resting_at s bids p n" for p n
  proof -
    from that have "n \<in> dom (AllOrders s)" by (auto simp: resting_at_def)
    with assms(2) have "n \<noteq> i" by auto
    with that show ?thesis by (simp add: resting_at_def assms(3))
  qed
  with assms(1) show ?thesis by (simp add: side_ok_def)
qed

lemma execute_order_create_book_ok:
  assumes ok: "book_ok s" and acc: "0 \<le> account_int" and cap: "next_id_static s < MAXORDERS"
    and q: "1 \<le> q" "q \<le> 2147483647" and p: "0 \<le> p"
    and c: "execute_order_create nm account_int q p dir otype s = Some (i, s4)"
  shows "book_ok s4 \<and> i = next_id_static s \<and> i \<notin> set (book_nodes s4) \<and>
     i \<in> dom (AllOrders s4) \<and>
     order_at s4 i = \<lparr>direction = dir, originalQty = q, qty = q, price = p, orderType = otype,
         order_id = i, account = account_int, ts = clock s,
         firstfillnode = [], totalFilled = 0, open = True\<rparr> \<and>
     (\<forall>n. n \<noteq> i \<longrightarrow> AllOrders s4 n = AllOrders s n) \<and>
     FirstBidLevel s4 = FirstBidLevel s \<and> FirstAskLevel s4 = FirstAskLevel s \<and>
     Quote s4 = Quote s \<and> stderr_out s4 = stderr_out s"
proof -
  from cap have "next_id_static s \<noteq> MAXORDERS" by simp
  from execute_order_create_result[OF acc this, of nm q p dir otype] c
  have i: "i = next_id_static s"
    and f: "FirstBidLevel s4 = FirstBidLevel s" "FirstAskLevel s4 = FirstAskLevel s"
      "Quote s4 = Quote s" "stderr_out s4 = stderr_out s"
    and nx: "next_id_static s4 = next_id_static s + 1" "HighestKnownOrder s4 = next_id_static s"
    and st: "AllOrders s4 = (AllOrders s)(i \<mapsto>
        \<lparr>direction = dir, originalQty = q, qty = q, price = p, orderType = otype,
         order_id = i, account = account_int, ts = clock s,
         firstfillnode = [], totalFilled = 0, open = True\<rparr>)"
    and da: "dom (AllAccounts s4) = insert account_int (dom (AllAccounts s))"
    by auto
  let ?r = "\<lparr>direction = dir, originalQty = q, qty = q, price = p, orderType = otype,
         order_id = i, account = account_int, ts = clock s,
         firstfillnode = [], totalFilled = 0, open = True\<rparr>"
  from ok have ch: "chains_ok s" and op: "\<forall>n \<in> set (book_nodes s). open (order_at s n)"
    by (simp_all add: book_ok_def)
  from ch have so: "store_ok s" by (simp add: chains_ok_def)
  have fresh: "i \<notin> dom (AllOrders s)"
    using so i by (auto simp: store_ok_iff)
  have nodes: "set (book_nodes s) \<subseteq> dom (AllOrders s)" using ch by (rule chains_ok_nodes_dom)
  have notin: "i \<notin> set (book_nodes s)" using fresh nodes by auto
  have bn: "book_nodes s4 = book_nodes s" by (simp add: book_nodes_def f)
  have old: "order_at s4 n = order_at s n" if "n \<noteq> i" for n
    using that by (simp add: order_at_def st)
  have new: "order_at s4 i = ?r" by (simp add: order_at_def st)
  have "\<forall>n \<in> dom (AllOrders s4). order_ok (order_at s4 n) \<and> order_id (order_at s4 n) = n \<and>
        0 \<le> n \<and> n < next_id_static s4 \<and> account (order_at s4 n) \<in> dom (AllAccounts s4)"
  proof
    fix n assume n: "n \<in> dom (AllOrders s4)"
    show "order_ok (order_at s4 n) \<and> order_id (order_at s4 n) = n \<and> 0 \<le> n \<and>
        n < next_id_static s4 \<and> account (order_at s4 n) \<in> dom (AllAccounts s4)"
    proof (cases "n = i")
      case True
      have "order_ok ?r" using q p by (simp add: order_ok_def)
      moreover have "0 \<le> i" "i < next_id_static s4" using so i nx by (simp_all add: store_ok_iff)
      moreover have "account_int \<in> dom (AllAccounts s4)" using da by simp
      ultimately show ?thesis unfolding True new by simp
    next
      case False
      with n have "n \<in> dom (AllOrders s)" by (simp add: st)
      with so have "order_ok (order_at s n) \<and> order_id (order_at s n) = n \<and> 0 \<le> n \<and>
        n < next_id_static s \<and> account (order_at s n) \<in> dom (AllAccounts s)"
        by (simp add: store_ok_iff)
      then show ?thesis using False nx da by (simp add: old)
    qed
  qed
  moreover have "0 \<le> next_id_static s4" "next_id_static s4 \<le> MAXORDERS"
    "HighestKnownOrder s4 = next_id_static s4 - 1"
    using so cap nx by (simp_all add: store_ok_iff)
  ultimately have "store_ok s4" unfolding store_ok_iff by blast
  moreover have sb: "side_ok s True (FirstBidLevel s)" and sa: "side_ok s False (FirstAskLevel s)"
    using ch by (simp_all add: chains_ok_def)
  have "side_ok s4 True (FirstBidLevel s4)"
    unfolding f by (rule side_ok_store_grows[OF sb fresh st])
  moreover have "side_ok s4 False (FirstAskLevel s4)"
    unfolding f by (rule side_ok_store_grows[OF sa fresh st])
  moreover have "distinct (book_nodes s4)" using ch by (simp add: bn chains_ok_def)
  ultimately have ch4: "chains_ok s4" by (simp add: chains_ok_def)
  have op4: "\<forall>n \<in> set (book_nodes s4). open (order_at s4 n)"
  proof
    fix n assume n: "n \<in> set (book_nodes s4)"
    then have "n \<noteq> i" using notin bn by auto
    then show "open (order_at s4 n)" using n op bn by (simp add: old)
  qed
  have "\<forall>n. n \<noteq> i \<longrightarrow> AllOrders s4 n = AllOrders s n" by (simp add: st)
  then show ?thesis
    using ch4 op4 i notin bn new f by (simp add: book_ok_def st)
qed

subsection \<open>Running the order\<close>

lemma run_order_walk: "run_order order s = walk (priority_sequence s order) order s"
  by (simp add: run_order_def priority_sequence_def opposite_side_def price_gate_def
      run_order_levels_walk conj_commute)

lemma opposite_nodes_split:
  "concat (map firstordernode (opposite_side s i)) =
     priority_sequence s i @
     concat (map firstordernode
       (dropWhile (\<lambda>l. \<not> price_gate (order_at s i) l) (opposite_side s i)))"
  unfolding priority_sequence_def
  by (simp flip: concat_append map_append)

lemma opposite_nodes_book: "set (concat (map firstordernode (opposite_side s i))) \<subseteq> set (book_nodes s)"
  by (auto simp: opposite_side_def book_nodes_def)

lemma priority_sequence_book: "set (priority_sequence s i) \<subseteq> set (book_nodes s)"
  using opposite_nodes_book[of s i] unfolding opposite_nodes_split by auto

lemma distinct_opposite_nodes:
  "distinct (book_nodes s) \<Longrightarrow> distinct (concat (map firstordernode (opposite_side s i)))"
  by (auto simp: opposite_side_def book_nodes_def)

lemma closed_prefix_append:
  assumes "\<forall>n \<in> set (dropWhile (\<lambda>n. \<not> Q n) xs). Q n" and "\<forall>n \<in> set ys. Q n"
  shows "\<forall>n \<in> set (dropWhile (\<lambda>n. \<not> Q n) (xs @ ys)). Q n"
proof (cases "\<forall>x \<in> set xs. \<not> Q x")
  case True
  then have e1: "dropWhile (\<lambda>n. \<not> Q n) (xs @ ys) = dropWhile (\<lambda>n. \<not> Q n) ys"
    by (simp add: dropWhile_append2)
  have e2: "dropWhile (\<lambda>n. \<not> Q n) ys = ys" using assms(2) by (cases ys) auto
  show ?thesis unfolding e1 e2 by (rule assms(2))
next
  case False
  then obtain x where "x \<in> set xs" "\<not> \<not> Q x" by auto
  then have e: "dropWhile (\<lambda>n. \<not> Q n) (xs @ ys) = dropWhile (\<lambda>n. \<not> Q n) xs @ ys"
    by (rule dropWhile_append1)
  show ?thesis unfolding e using assms by (metis Un_iff set_append)
qed

text \<open>
  After the walk of an incoming order that is stored and not on the book: the chains are
  well formed, the book and the counters are as before, every order outside the priority
  sequence is untouched, and the closed orders of the opposite side are a prefix of it.
\<close>

lemma walk_book_result:
  assumes ok: "book_ok s" and i: "i \<in> dom (AllOrders s)" and ni: "i \<notin> set (book_nodes s)"
    and ns: "ns = priority_sequence s i"
  shows "chains_ok (walk ns i s)"
    and "\<forall>n. n \<notin> set ns \<longrightarrow> n \<noteq> i \<longrightarrow> order_at (walk ns i s) n = order_at s n"
    and "\<forall>n \<in> set (dropWhile (\<lambda>n. \<not> open (order_at (walk ns i s) n))
             (concat (map firstordernode (opposite_side s i)))). open (order_at (walk ns i s) n)"
    and "dom (AllOrders (walk ns i s)) = dom (AllOrders s)"
proof -
  from ok have ch: "chains_ok s" and op: "\<forall>n \<in> set (book_nodes s). open (order_at s n)"
    by (simp_all add: book_ok_def)
  have sub: "set ns \<subseteq> set (book_nodes s)" unfolding ns by (rule priority_sequence_book)
  have dom: "set ns \<subseteq> dom (AllOrders s)" using sub chains_ok_nodes_dom[OF ch] by auto
  have nin: "i \<notin> set ns" using sub ni by auto
  show "chains_ok (walk ns i s)" using ch dom i nin by (rule walk_chains_ok)
  show "dom (AllOrders (walk ns i s)) = dom (AllOrders s)" using dom i by (rule dom_AllOrders_walk)
  show other: "\<forall>n. n \<notin> set ns \<longrightarrow> n \<noteq> i \<longrightarrow> order_at (walk ns i s) n = order_at s n"
    by (simp add: walk_other)
  let ?rest = "concat (map firstordernode
       (dropWhile (\<lambda>l. \<not> price_gate (order_at s i) l) (opposite_side s i)))"
  have split: "concat (map firstordernode (opposite_side s i)) = ns @ ?rest"
    unfolding ns by (rule opposite_nodes_split)
  have d: "distinct (ns @ ?rest)"
    using distinct_opposite_nodes[of s i] ch unfolding split by (simp add: chains_ok_def)
  have open_ns: "\<forall>n \<in> set ns. open (order_at s n)" using sub op by auto
  have dn: "distinct ns" using d by simp
  have p1: "\<forall>n \<in> set (dropWhile (\<lambda>n. \<not> open (order_at (walk ns i s) n)) ns).
       open (order_at (walk ns i s) n)"
    using dn nin open_ns by (rule walk_closed_prefix)
  have p2: "\<forall>n \<in> set ?rest. open (order_at (walk ns i s) n)"
  proof
    fix n assume n: "n \<in> set ?rest"
    then have "n \<notin> set ns" using d by auto
    moreover have "n \<in> set (book_nodes s)"
      using n opposite_nodes_book[of s i] unfolding split by auto
    moreover from this have "n \<noteq> i" using ni by auto
    ultimately show "open (order_at (walk ns i s) n)" using op by (simp add: walk_other)
  qed
  show "\<forall>n \<in> set (dropWhile (\<lambda>n. \<not> open (order_at (walk ns i s) n))
             (concat (map firstordernode (opposite_side s i)))). open (order_at (walk ns i s) n)"
    unfolding split using p1 p2 by (rule closed_prefix_append)
qed

subsection \<open>Cleaning the opposite side\<close>

lemma distinct_suffix_left: "distinct (xs @ ys) \<Longrightarrow> xs = pre @ xs' \<Longrightarrow> distinct (xs' @ ys)"
  by auto

lemma distinct_suffix_right: "distinct (xs @ ys) \<Longrightarrow> ys = pre @ ys' \<Longrightarrow> distinct (xs @ ys')"
  by auto

lemma execute_order_cleanup_book_ok:
  assumes ch: "chains_ok s"
    and own: "\<forall>n \<in> set (book_nodes s). n \<notin> set (concat (map firstordernode (opposite_side s i)))
              \<longrightarrow> open (order_at s n)"
    and opp: "\<forall>n \<in> set (dropWhile (\<lambda>n. \<not> open (order_at s n))
             (concat (map firstordernode (opposite_side s i)))). open (order_at s n)"
  shows "\<exists>s6. execute_order_cleanup i s = Some s6 \<and> book_ok s6 \<and>
      AllOrders s6 = AllOrders s \<and> AllAccounts s6 = AllAccounts s \<and> Quote s6 = Quote s \<and>
      stderr_out s6 = stderr_out s \<and> clock s6 = clock s \<and>
      set (book_nodes s6) \<subseteq> set (book_nodes s) \<and>
      (if direction (order_at s i) = SELL then FirstAskLevel s6 = FirstAskLevel s
       else FirstBidLevel s6 = FirstBidLevel s)"
proof (cases "direction (order_at s i) = SELL")
  case True
  then have os: "opposite_side s i = FirstBidLevel s" by (simp add: opposite_side_def)
  from ch have sb: "side_ok s True (FirstBidLevel s)" and sa: "side_ok s False (FirstAskLevel s)"
    and so: "store_ok s" and d: "distinct (book_nodes s)"
    by (simp_all add: chains_ok_def)
  from sb have "\<forall>l \<in> set (FirstBidLevel s). firstordernode l \<noteq> []" by (simp add: side_ok_def)
  then obtain ls' where c: "cleanup_closed_bids_or_asks s (FirstBidLevel s) = Some ls'"
    using cleanup_Some by blast
  let ?s6 = "s\<lparr>FirstBidLevel := ls'\<rparr>"
  have ex: "execute_order_cleanup i s = Some ?s6"
    using True c by (simp add: execute_order_cleanup_def)
  obtain pre where pre: "concat (map firstordernode (FirstBidLevel s)) =
      pre @ concat (map firstordernode ls')"
    using cleanup_suffix[OF c] by blast
  have bn: "book_nodes ?s6 = concat (map firstordernode ls') @ concat (map firstordernode (FirstAskLevel s))"
    by (simp add: book_nodes_def)
  have bn0: "book_nodes s = concat (map firstordernode (FirstBidLevel s)) @
      concat (map firstordernode (FirstAskLevel s))"
    by (simp add: book_nodes_def)
  have sub: "set (book_nodes ?s6) \<subseteq> set (book_nodes s)" unfolding bn bn0 pre by auto
  have d6: "distinct (book_nodes ?s6)"
    unfolding bn using d pre unfolding bn0 by (rule distinct_suffix_left)
  have sb6: "side_ok ?s6 True (FirstBidLevel ?s6)"
    using cleanup_side_ok[OF sb c] by (simp add: side_ok_cong[of ?s6 s])
  have sa6: "side_ok ?s6 False (FirstAskLevel ?s6)"
    using sa by (simp add: side_ok_cong[of ?s6 s])
  have so6: "store_ok ?s6" using so by (simp add: store_ok_def)
  have ch6: "chains_ok ?s6" using sb6 sa6 so6 d6 by (simp add: chains_ok_def)
  have o1: "\<forall>n \<in> set (concat (map firstordernode ls')). open (order_at s n)"
    using opp unfolding os by (rule cleanup_open[OF c])
  have o2: "\<forall>n \<in> set (concat (map firstordernode (FirstAskLevel s))). open (order_at s n)"
  proof
    fix n assume n: "n \<in> set (concat (map firstordernode (FirstAskLevel s)))"
    then have "n \<in> set (book_nodes s)" unfolding bn0 by simp
    moreover have "n \<notin> set (concat (map firstordernode (FirstBidLevel s)))"
      using n d unfolding bn0 by auto
    ultimately show "open (order_at s n)" using own unfolding os by simp
  qed
  have "\<forall>n \<in> set (book_nodes ?s6). open (order_at ?s6 n)"
    unfolding bn using o1 o2 by (auto simp: order_at_def)
  with ch6 have "book_ok ?s6" by (simp add: book_ok_def)
  then show ?thesis using ex sub True by auto
next
  case False
  then have os: "opposite_side s i = FirstAskLevel s" by (simp add: opposite_side_def)
  from ch have sb: "side_ok s True (FirstBidLevel s)" and sa: "side_ok s False (FirstAskLevel s)"
    and so: "store_ok s" and d: "distinct (book_nodes s)"
    by (simp_all add: chains_ok_def)
  from sa have "\<forall>l \<in> set (FirstAskLevel s). firstordernode l \<noteq> []" by (simp add: side_ok_def)
  then obtain ls' where c: "cleanup_closed_bids_or_asks s (FirstAskLevel s) = Some ls'"
    using cleanup_Some by blast
  let ?s6 = "s\<lparr>FirstAskLevel := ls'\<rparr>"
  have ex: "execute_order_cleanup i s = Some ?s6"
    using False c by (simp add: execute_order_cleanup_def)
  obtain pre where pre: "concat (map firstordernode (FirstAskLevel s)) =
      pre @ concat (map firstordernode ls')"
    using cleanup_suffix[OF c] by blast
  have bn: "book_nodes ?s6 = concat (map firstordernode (FirstBidLevel s)) @ concat (map firstordernode ls')"
    by (simp add: book_nodes_def)
  have bn0: "book_nodes s = concat (map firstordernode (FirstBidLevel s)) @
      concat (map firstordernode (FirstAskLevel s))"
    by (simp add: book_nodes_def)
  have sub: "set (book_nodes ?s6) \<subseteq> set (book_nodes s)" unfolding bn bn0 pre by auto
  have d6: "distinct (book_nodes ?s6)"
    unfolding bn using d pre unfolding bn0 by (rule distinct_suffix_right)
  have sa6: "side_ok ?s6 False (FirstAskLevel ?s6)"
    using cleanup_side_ok[OF sa c] by (simp add: side_ok_cong[of ?s6 s])
  have sb6: "side_ok ?s6 True (FirstBidLevel ?s6)"
    using sb by (simp add: side_ok_cong[of ?s6 s])
  have so6: "store_ok ?s6" using so by (simp add: store_ok_def)
  have ch6: "chains_ok ?s6" using sb6 sa6 so6 d6 by (simp add: chains_ok_def)
  have o1: "\<forall>n \<in> set (concat (map firstordernode ls')). open (order_at s n)"
    using opp unfolding os by (rule cleanup_open[OF c])
  have o2: "\<forall>n \<in> set (concat (map firstordernode (FirstBidLevel s))). open (order_at s n)"
  proof
    fix n assume n: "n \<in> set (concat (map firstordernode (FirstBidLevel s)))"
    then have "n \<in> set (book_nodes s)" unfolding bn0 by simp
    moreover have "n \<notin> set (concat (map firstordernode (FirstAskLevel s)))"
      using n d unfolding bn0 by auto
    ultimately show "open (order_at s n)" using own unfolding os by simp
  qed
  have "\<forall>n \<in> set (book_nodes ?s6). open (order_at ?s6 n)"
    unfolding bn using o1 o2 by (auto simp: order_at_def)
  with ch6 have "book_ok ?s6" by (simp add: book_ok_def)
  then show ?thesis using ex sub False by auto
qed

lemma execute_order_cleanup_untouched:
  assumes "book_ok s"
  shows "execute_order_cleanup i s = Some s"
proof -
  from assms have ch: "chains_ok s" and op: "\<forall>n \<in> set (book_nodes s). open (order_at s n)"
    by (simp_all add: book_ok_def)
  from ch have sb: "side_ok s True (FirstBidLevel s)" and sa: "side_ok s False (FirstAskLevel s)"
    by (simp_all add: chains_ok_def)
  have "cleanup_closed_bids_or_asks s (FirstBidLevel s) = Some (FirstBidLevel s)"
    using sb op by (intro cleanup_all_open) (auto simp: side_ok_def book_nodes_def)
  moreover have "cleanup_closed_bids_or_asks s (FirstAskLevel s) = Some (FirstAskLevel s)"
    using sa op by (intro cleanup_all_open) (auto simp: side_ok_def book_nodes_def)
  ultimately show ?thesis by (simp add: execute_order_cleanup_def)
qed

subsection \<open>Resting or closing the order\<close>

lemma upd_order_twice: "upd_order i g (upd_order i f s) = upd_order i (\<lambda>r. g (f r)) s"
  by (simp add: upd_order_def order_at_def)

lemma dom_AllOrders_upd_order:
  "i \<in> dom (AllOrders s) \<Longrightarrow> dom (AllOrders (upd_order i f s)) = dom (AllOrders s)"
  by (auto simp: upd_order_def)

lemma book_nodes_upd_order [simp]: "book_nodes (upd_order i f s) = book_nodes s"
  by (simp add: book_nodes_def)

lemma store_ok_order:
  "store_ok s \<Longrightarrow> i \<in> dom (AllOrders s) \<Longrightarrow> order_ok (order_at s i) \<and> order_id (order_at s i) = i"
  by (simp add: store_ok_iff)

lemma book_ok_order_ok:
  "book_ok s \<Longrightarrow> i \<in> dom (AllOrders s) \<Longrightarrow> order_ok (order_at s i)"
  by (simp add: book_ok_def chains_ok_def store_ok_iff)

text \<open>A write to an order that is not on the book.\<close>

lemma book_ok_upd_order_off_book:
  assumes ok: "book_ok s" and i: "i \<in> dom (AllOrders s)" and ni: "i \<notin> set (book_nodes s)"
    and f: "order_ok (f (order_at s i))" "order_id (f (order_at s i)) = order_id (order_at s i)"
      "account (f (order_at s i)) = account (order_at s i)"
  shows "book_ok (upd_order i f s)"
proof -
  from ok have ch: "chains_ok s" and op: "\<forall>n \<in> set (book_nodes s). open (order_at s n)"
    by (simp_all add: book_ok_def)
  have "chains_ok (upd_order i f s)"
  proof (rule chains_ok_frame[OF ch])
    show "dom (AllOrders (upd_order i f s)) = dom (AllOrders s)"
      using i by (rule dom_AllOrders_upd_order)
    fix n assume "n \<in> dom (AllOrders s)"
    then show "order_ok (order_at (upd_order i f s) n) \<and>
        order_id (order_at (upd_order i f s) n) = order_id (order_at s n) \<and>
        account (order_at (upd_order i f s) n) = account (order_at s n)"
      using f store_ok_order[of s n] ch by (auto simp: chains_ok_def)
  next
    fix n assume "n \<in> set (book_nodes s)"
    then have "n \<noteq> i" using ni by auto
    then show "orderType (order_at (upd_order i f s) n) = orderType (order_at s n) \<and>
        price (order_at (upd_order i f s) n) = price (order_at s n) \<and>
        direction (order_at (upd_order i f s) n) = direction (order_at s n)"
      by simp
  qed simp_all
  moreover have "\<forall>n \<in> set (book_nodes (upd_order i f s)). open (order_at (upd_order i f s) n)"
    using op ni by auto
  ultimately show ?thesis by (simp add: book_ok_def)
qed

lemma book_ok_zero_price:
  assumes "book_ok s" and "i \<in> dom (AllOrders s)" and "i \<notin> set (book_nodes s)"
  shows "book_ok (upd_order i (\<lambda>r. r\<lparr>price := 0\<rparr>) s)"
  using assms book_ok_order_ok[OF assms(1,2)]
  by (intro book_ok_upd_order_off_book) (simp_all add: order_ok_def)

lemma book_ok_close:
  assumes "book_ok s" and "i \<in> dom (AllOrders s)" and "i \<notin> set (book_nodes s)"
  shows "book_ok (upd_order i (\<lambda>r. r\<lparr>qty := 0\<rparr>) (upd_order i (\<lambda>r. r\<lparr>open := False\<rparr>) s))"
  unfolding upd_order_twice
  using assms book_ok_order_ok[OF assms(1,2)]
  by (intro book_ok_upd_order_off_book) (auto simp: order_ok_def split: if_splits)

lemma book_ok_insert:
  assumes ok: "book_ok s" and i: "i \<in> dom (AllOrders s)" and ni: "i \<notin> set (book_nodes s)"
    and lim: "orderType (order_at s i) = LIMIT" and op: "open (order_at s i)"
    and dir: "direction (order_at s i) = BUY \<or> direction (order_at s i) = SELL"
  shows "\<exists>s8. (if direction (order_at s i) = SELL then insert_ask i s else insert_bid i s) = Some s8 \<and>
     book_ok s8 \<and> set (book_nodes s8) = insert i (set (book_nodes s)) \<and>
     AllOrders s8 = AllOrders s \<and> AllAccounts s8 = AllAccounts s \<and> Quote s8 = Quote s \<and>
     stderr_out s8 = stderr_out s \<and> clock s8 = clock s"
proof -
  from ok have ch: "chains_ok s" and opn: "\<forall>n \<in> set (book_nodes s). open (order_at s n)"
    by (simp_all add: book_ok_def)
  from ch have sb: "side_ok s True (FirstBidLevel s)" and sa: "side_ok s False (FirstAskLevel s)"
    and so: "store_ok s" and d: "distinct (book_nodes s)"
    by (simp_all add: chains_ok_def)
  have bn0: "book_nodes s = concat (map firstordernode (FirstBidLevel s)) @
      concat (map firstordernode (FirstAskLevel s))"
    by (simp add: book_nodes_def)
  show ?thesis
  proof (cases "direction (order_at s i) = SELL")
    case True
    have r: "resting_at s (\<not> True) (price (order_at s i)) i"
      using i lim True by (simp add: resting_at_iff)
    from sa have "\<forall>l \<in> set (FirstAskLevel s). firstordernode l \<noteq> []" by (simp add: side_ok_def)
    then obtain ls' where c: "insert_level True (price (order_at s i)) i (FirstAskLevel s) = Some ls'"
      using insert_level_Some by blast
    let ?s8 = "s\<lparr>FirstAskLevel := ls'\<rparr>"
    have ex: "insert_ask i s = Some ?s8" using c by (simp add: insert_ask_def)
    have nodes: "set (concat (map firstordernode ls')) =
        insert i (set (concat (map firstordernode (FirstAskLevel s))))"
      using c by (rule insert_level_nodes)
    have dl: "distinct (concat (map firstordernode ls'))"
      using c d ni unfolding bn0 by (intro insert_level_distinct[OF c]) auto
    have bn: "book_nodes ?s8 = concat (map firstordernode (FirstBidLevel s)) @
        concat (map firstordernode ls')"
      by (simp add: book_nodes_def)
    have set8: "set (book_nodes ?s8) = insert i (set (book_nodes s))"
      unfolding bn bn0 using nodes by auto
    have d8: "distinct (book_nodes ?s8)"
      unfolding bn using d dl ni nodes unfolding bn0 by auto
    have sa8: "side_ok ?s8 False (FirstAskLevel ?s8)"
      using insert_level_side_ok[of s True, OF _ r c] sa by (simp add: side_ok_cong[of ?s8 s])
    have sb8: "side_ok ?s8 True (FirstBidLevel ?s8)"
      using sb by (simp add: side_ok_cong[of ?s8 s])
    have so8: "store_ok ?s8" using so by (simp add: store_ok_def)
    have ch8: "chains_ok ?s8" using sa8 sb8 so8 d8 by (simp add: chains_ok_def)
    have "\<forall>n \<in> set (book_nodes ?s8). open (order_at ?s8 n)"
      unfolding set8 using opn op by (auto simp: order_at_def)
    with ch8 have "book_ok ?s8" by (simp add: book_ok_def)
    then show ?thesis using True ex set8 by simp
  next
    case False
    with dir have buy: "direction (order_at s i) = BUY" by simp
    have r: "resting_at s (\<not> False) (price (order_at s i)) i"
      using i lim buy by (simp add: resting_at_iff)
    from sb have "\<forall>l \<in> set (FirstBidLevel s). firstordernode l \<noteq> []" by (simp add: side_ok_def)
    then obtain ls' where c: "insert_level False (price (order_at s i)) i (FirstBidLevel s) = Some ls'"
      using insert_level_Some by blast
    let ?s8 = "s\<lparr>FirstBidLevel := ls'\<rparr>"
    have ex: "insert_bid i s = Some ?s8" using c by (simp add: insert_bid_def)
    have nodes: "set (concat (map firstordernode ls')) =
        insert i (set (concat (map firstordernode (FirstBidLevel s))))"
      using c by (rule insert_level_nodes)
    have dl: "distinct (concat (map firstordernode ls'))"
      using c d ni unfolding bn0 by (intro insert_level_distinct[OF c]) auto
    have bn: "book_nodes ?s8 = concat (map firstordernode ls') @
        concat (map firstordernode (FirstAskLevel s))"
      by (simp add: book_nodes_def)
    have set8: "set (book_nodes ?s8) = insert i (set (book_nodes s))"
      unfolding bn bn0 using nodes by auto
    have d8: "distinct (book_nodes ?s8)"
      unfolding bn using d dl ni nodes unfolding bn0 by auto
    have sb8: "side_ok ?s8 True (FirstBidLevel ?s8)"
      using insert_level_side_ok[of s False, OF _ r c] sb by (simp add: side_ok_cong[of ?s8 s])
    have sa8: "side_ok ?s8 False (FirstAskLevel ?s8)"
      using sa by (simp add: side_ok_cong[of ?s8 s])
    have so8: "store_ok ?s8" using so by (simp add: store_ok_def)
    have ch8: "chains_ok ?s8" using sa8 sb8 so8 d8 by (simp add: chains_ok_def)
    have "\<forall>n \<in> set (book_nodes ?s8). open (order_at ?s8 n)"
      unfolding set8 using opn op by (auto simp: order_at_def)
    with ch8 have "book_ok ?s8" by (simp add: book_ok_def)
    then show ?thesis using False ex set8 by simp
  qed
qed

subsection \<open>The whole of an accepted order\<close>

lemma execute_order_accepted:
  assumes "next_id_static s < MAXORDERS" and "account_int < MAXACCOUNTS" and "0 \<le> p"
    and "1 \<le> q" and "dir = BUY \<or> dir = SELL"
  shows "execute_order nm account_int q p dir otype s =
     (case execute_order_create nm account_int q p dir otype s of
           None \<Rightarrow> None
         | Some (order, s4) \<Rightarrow>
             (case execute_order_cleanup order (execute_order_run order s4) of
                None \<Rightarrow> None
              | Some s6 \<Rightarrow>
                  (case execute_order_place order (execute_order_market_price order s6) of
                     None \<Rightarrow> None
                   | Some s8 \<Rightarrow>
                       Some (\<lparr>oe_order = Some order, oe_error = 0\<rparr>,
                             execute_order_ticker order s8))))"
proof -
  have "\<not> fst (next_id True s) \<ge> MAXORDERS" using assms(1) by (simp add: next_id_no_iterate)
  moreover have "\<not> (p < 0 \<or> q < 1 \<or> (dir \<noteq> SELL \<and> dir \<noteq> BUY))" using assms by auto
  ultimately show ?thesis using assms(2) unfolding execute_order_def by auto
qed

lemma execute_order_run_cases:
  "execute_order_run i s = s \<or> execute_order_run i s = walk (priority_sequence s i) i s"
  by (simp add: execute_order_run_def run_order_walk)

lemma opposite_side_walk [simp]: "opposite_side (walk ns i s) j = opposite_side s j"
  by (simp add: opposite_side_def)

lemma book_nodes_walk [simp]: "book_nodes (walk ns i s) = book_nodes s"
  by (simp add: book_nodes_def)

text \<open>
  After the run of the new order (whether the matcher was entered or not) the opposite
  side can be cleaned, and the result is a well-formed book without the new order.
\<close>

lemma execute_order_run_cleanup:
  assumes ok: "book_ok s" and i: "i \<in> dom (AllOrders s)" and ni: "i \<notin> set (book_nodes s)"
  shows "\<exists>s6. execute_order_cleanup i (execute_order_run i s) = Some s6 \<and> book_ok s6 \<and>
      AllOrders s6 = AllOrders (execute_order_run i s) \<and>
      AllAccounts s6 = AllAccounts (execute_order_run i s) \<and>
      Quote s6 = Quote (execute_order_run i s) \<and>
      stderr_out s6 = stderr_out (execute_order_run i s) \<and>
      set (book_nodes s6) \<subseteq> set (book_nodes s) \<and>
      dom (AllOrders s6) = dom (AllOrders s)"
proof -
  from ok have ch: "chains_ok s" and op: "\<forall>n \<in> set (book_nodes s). open (order_at s n)"
    by (simp_all add: book_ok_def)
  let ?ns = "priority_sequence s i"
  let ?w = "walk ?ns i s"
  show ?thesis
  proof (cases "execute_order_run i s = s")
    case True
    have "execute_order_cleanup i s = Some s" using ok by (rule execute_order_cleanup_untouched)
    then show ?thesis using True ok by simp
  next
    case False
    then have run: "execute_order_run i s = ?w" using execute_order_run_cases[of i s] by simp
    note w = walk_book_result[OF ok i ni refl]
    have own: "\<forall>n \<in> set (book_nodes ?w).
        n \<notin> set (concat (map firstordernode (opposite_side ?w i))) \<longrightarrow> open (order_at ?w n)"
    proof (intro ballI impI)
      fix n assume n: "n \<in> set (book_nodes ?w)"
        and no: "n \<notin> set (concat (map firstordernode (opposite_side ?w i)))"
      from n have nb: "n \<in> set (book_nodes s)" by simp
      then have "n \<noteq> i" using ni by auto
      moreover have "n \<notin> set ?ns" using no unfolding opposite_side_walk opposite_nodes_split by simp
      ultimately have "order_at ?w n = order_at s n" using w(2) by simp
      then show "open (order_at ?w n)" using op nb by simp
    qed
    have opp: "\<forall>n \<in> set (dropWhile (\<lambda>n. \<not> open (order_at ?w n))
        (concat (map firstordernode (opposite_side ?w i)))). open (order_at ?w n)"
      unfolding opposite_side_walk by (rule w(3))
    from execute_order_cleanup_book_ok[OF w(1) own opp]
    obtain s6 where s6: "execute_order_cleanup i ?w = Some s6" "book_ok s6"
      "AllOrders s6 = AllOrders ?w" "AllAccounts s6 = AllAccounts ?w" "Quote s6 = Quote ?w"
      "stderr_out s6 = stderr_out ?w" "set (book_nodes s6) \<subseteq> set (book_nodes ?w)"
      by blast
    have "dom (AllOrders s6) = dom (AllOrders s)" using s6(3) w(4) by simp
    then show ?thesis unfolding run using s6 by simp
  qed
qed

text \<open>The last blocks: the price of a market order, resting or closing.\<close>

lemma execute_order_market_price_fields [simp]:
  "FirstBidLevel (execute_order_market_price i s) = FirstBidLevel s"
  "FirstAskLevel (execute_order_market_price i s) = FirstAskLevel s"
  "book_nodes (execute_order_market_price i s) = book_nodes s"
  "AllAccounts (execute_order_market_price i s) = AllAccounts s"
  "Quote (execute_order_market_price i s) = Quote s"
  "stderr_out (execute_order_market_price i s) = stderr_out s"
  "clock (execute_order_market_price i s) = clock s"
  "open (order_at (execute_order_market_price i s) n) = open (order_at s n)"
  "qty (order_at (execute_order_market_price i s) n) = qty (order_at s n)"
  "totalFilled (order_at (execute_order_market_price i s) n) = totalFilled (order_at s n)"
  "originalQty (order_at (execute_order_market_price i s) n) = originalQty (order_at s n)"
  "orderType (order_at (execute_order_market_price i s) n) = orderType (order_at s n)"
  "direction (order_at (execute_order_market_price i s) n) = direction (order_at s n)"
  "firstfillnode (order_at (execute_order_market_price i s) n) = firstfillnode (order_at s n)"
  by (simp_all add: execute_order_market_price_def)

lemma execute_order_market_price_book_ok:
  assumes "book_ok s" and "i \<in> dom (AllOrders s)" and "i \<notin> set (book_nodes s)"
  shows "book_ok (execute_order_market_price i s)"
  using assms by (simp add: execute_order_market_price_def book_ok_zero_price)

lemma dom_execute_order_market_price:
  "i \<in> dom (AllOrders s) \<Longrightarrow> dom (AllOrders (execute_order_market_price i s)) = dom (AllOrders s)"
  by (simp add: execute_order_market_price_def dom_AllOrders_upd_order)

lemma execute_order_market_price_other:
  "n \<noteq> i \<Longrightarrow> AllOrders (execute_order_market_price i s) n = AllOrders s n"
  by (simp add: execute_order_market_price_def AllOrders_upd_order_at)

lemma execute_order_place_result:
  assumes ok: "book_ok s" and i: "i \<in> dom (AllOrders s)" and ni: "i \<notin> set (book_nodes s)"
    and dir: "direction (order_at s i) = BUY \<or> direction (order_at s i) = SELL"
  shows "\<exists>s8. execute_order_place i s = Some s8 \<and> book_ok s8 \<and>
      (\<forall>n. n \<noteq> i \<longrightarrow> AllOrders s8 n = AllOrders s n) \<and>
      dom (AllOrders s8) = dom (AllOrders s) \<and>
      order_at s8 i =
        (if open (order_at s i) \<and> orderType (order_at s i) \<noteq> LIMIT
         then (order_at s i)\<lparr>open := False, qty := 0\<rparr> else order_at s i) \<and>
      set (book_nodes s8) =
        (if open (order_at s i) \<and> orderType (order_at s i) = LIMIT
         then insert i (set (book_nodes s)) else set (book_nodes s)) \<and>
      AllAccounts s8 = AllAccounts s \<and> Quote s8 = Quote s \<and> stderr_out s8 = stderr_out s"
proof (cases "open (order_at s i)")
  case False
  then show ?thesis using ok by (simp add: execute_order_place_def)
next
  case True
  show ?thesis
  proof (cases "orderType (order_at s i) = LIMIT")
    case lim: True
    from book_ok_insert[OF ok i ni lim True dir]
    obtain s8 where s8: "(if direction (order_at s i) = SELL then insert_ask i s else insert_bid i s) = Some s8"
      "book_ok s8" "set (book_nodes s8) = insert i (set (book_nodes s))"
      "AllOrders s8 = AllOrders s" "AllAccounts s8 = AllAccounts s" "Quote s8 = Quote s"
      "stderr_out s8 = stderr_out s"
      by blast
    have "execute_order_place i s = Some s8"
      using s8(1) True lim by (simp add: execute_order_place_def)
    then show ?thesis using s8 True lim by (simp add: order_at_def)
  next
    case nolim: False
    let ?s8 = "upd_order i (\<lambda>r. r\<lparr>qty := 0\<rparr>) (upd_order i (\<lambda>r. r\<lparr>open := False\<rparr>) s)"
    have ex: "execute_order_place i s = Some ?s8"
      using True nolim by (simp add: execute_order_place_def)
    have b: "book_ok ?s8" using ok i ni by (rule book_ok_close)
    have d: "dom (AllOrders ?s8) = dom (AllOrders s)"
      using i by (simp add: dom_AllOrders_upd_order)
    show ?thesis using ex b d True nolim by (simp add: AllOrders_upd_order_at)
  qed
qed

lemma execute_order_run_static [simp]:
  "price (order_at (execute_order_run i s) r) = price (order_at s r)"
  "orderType (order_at (execute_order_run i s) r) = orderType (order_at s r)"
  "direction (order_at (execute_order_run i s) r) = direction (order_at s r)"
  "order_id (order_at (execute_order_run i s) r) = order_id (order_at s r)"
  "account (order_at (execute_order_run i s) r) = account (order_at s r)"
  "originalQty (order_at (execute_order_run i s) r) = originalQty (order_at s r)"
  using execute_order_run_cases[of i s] by auto

lemma order_at_cong: "AllOrders s' = AllOrders s \<Longrightarrow> order_at s' = order_at s"
  by (simp add: order_at_def fun_eq_iff)

text \<open>
  The states an accepted order goes through: \<open>s4\<close> with the new order in the store,
  \<open>s6\<close> after the run and the cleaning of the opposite side, \<open>s8\<close> after the order was
  rested or closed; the ticker block gives the final state.
\<close>

lemma execute_order_steps:
  assumes ok: "book_ok s" and cap: "next_id_static s < MAXORDERS"
    and acc: "0 \<le> account_int" "account_int < MAXACCOUNTS"
    and p: "0 \<le> p" and q: "1 \<le> q" "q \<le> 2147483647" and dir: "dir = BUY \<or> dir = SELL"
  obtains s4 s6 s8 where
    "execute_order_create nm account_int q p dir otype s = Some (next_id_static s, s4)"
    and "book_ok s4" and "next_id_static s \<in> dom (AllOrders s4)"
    and "next_id_static s \<notin> set (book_nodes s4)"
    and "order_at s4 (next_id_static s) =
          \<lparr>direction = dir, originalQty = q, qty = q, price = p, orderType = otype,
           order_id = next_id_static s, account = account_int, ts = clock s,
           firstfillnode = [], totalFilled = 0, open = True\<rparr>"
    and "\<forall>n. n \<noteq> next_id_static s \<longrightarrow> AllOrders s4 n = AllOrders s n"
    and "FirstBidLevel s4 = FirstBidLevel s" and "FirstAskLevel s4 = FirstAskLevel s"
    and "Quote s4 = Quote s" and "stderr_out s4 = stderr_out s"
    and "execute_order_cleanup (next_id_static s) (execute_order_run (next_id_static s) s4) = Some s6"
    and "book_ok s6" and "AllOrders s6 = AllOrders (execute_order_run (next_id_static s) s4)"
    and "AllAccounts s6 = AllAccounts (execute_order_run (next_id_static s) s4)"
    and "Quote s6 = Quote (execute_order_run (next_id_static s) s4)"
    and "stderr_out s6 = stderr_out (execute_order_run (next_id_static s) s4)"
    and "set (book_nodes s6) \<subseteq> set (book_nodes s)"
    and "next_id_static s \<in> dom (AllOrders s6)"
    and "execute_order_place (next_id_static s) (execute_order_market_price (next_id_static s) s6) = Some s8"
    and "book_ok s8"
    and "\<forall>n. n \<noteq> next_id_static s \<longrightarrow> AllOrders s8 n = AllOrders s6 n"
    and "order_at s8 (next_id_static s) =
          (if open (order_at s6 (next_id_static s)) \<and> otype \<noteq> LIMIT
           then (order_at (execute_order_market_price (next_id_static s) s6) (next_id_static s))
                  \<lparr>open := False, qty := 0\<rparr>
           else order_at (execute_order_market_price (next_id_static s) s6) (next_id_static s))"
    and "set (book_nodes s8) =
          (if open (order_at s6 (next_id_static s)) \<and> otype = LIMIT
           then insert (next_id_static s) (set (book_nodes s6)) else set (book_nodes s6))"
    and "AllAccounts s8 = AllAccounts s6" and "Quote s8 = Quote s6"
    and "stderr_out s8 = stderr_out s6"
    and "dom (AllOrders s8) = dom (AllOrders s6)"
    and "execute_order nm account_int q p dir otype s =
          Some (\<lparr>oe_order = Some (next_id_static s), oe_error = 0\<rparr>,
                execute_order_ticker (next_id_static s) s8)"
proof -
  let ?i = "next_id_static s"
  from cap have ne: "?i \<noteq> MAXORDERS" by simp
  from execute_order_create_result[OF acc(1) ne, of nm q p dir otype]
  obtain s4 where c: "execute_order_create nm account_int q p dir otype s = Some (?i, s4)"
    by blast
  note c4 = execute_order_create_book_ok[OF ok acc(1) cap q p c]
  from c4 have ok4: "book_ok s4" and i4: "?i \<in> dom (AllOrders s4)"
    and ni4: "?i \<notin> set (book_nodes s4)"
    and r4: "order_at s4 ?i = \<lparr>direction = dir, originalQty = q, qty = q, price = p,
           orderType = otype, order_id = ?i, account = account_int, ts = clock s,
           firstfillnode = [], totalFilled = 0, open = True\<rparr>"
    and o4: "\<forall>n. n \<noteq> ?i \<longrightarrow> AllOrders s4 n = AllOrders s n"
    and f4: "FirstBidLevel s4 = FirstBidLevel s" "FirstAskLevel s4 = FirstAskLevel s"
      "Quote s4 = Quote s" "stderr_out s4 = stderr_out s"
    by simp_all
  have bn4: "book_nodes s4 = book_nodes s" by (simp add: book_nodes_def f4)
  let ?s5 = "execute_order_run ?i s4"
  from execute_order_run_cleanup[OF ok4 i4 ni4]
  obtain s6 where s6: "execute_order_cleanup ?i ?s5 = Some s6" "book_ok s6"
      "AllOrders s6 = AllOrders ?s5" "AllAccounts s6 = AllAccounts ?s5" "Quote s6 = Quote ?s5"
      "stderr_out s6 = stderr_out ?s5" "set (book_nodes s6) \<subseteq> set (book_nodes s4)"
      "dom (AllOrders s6) = dom (AllOrders s4)"
    by blast
  have i6: "?i \<in> dom (AllOrders s6)" using s6(8) i4 by simp
  have ni6: "?i \<notin> set (book_nodes s6)" using s6(7) ni4 by auto
  have oa6: "order_at s6 = order_at ?s5" using s6(3) by (rule order_at_cong)
  have dir6: "direction (order_at s6 ?i) = dir" "orderType (order_at s6 ?i) = otype"
    by (simp_all add: oa6 r4)
  let ?s7 = "execute_order_market_price ?i s6"
  have ok7: "book_ok ?s7" using s6(2) i6 ni6 by (rule execute_order_market_price_book_ok)
  have i7: "?i \<in> dom (AllOrders ?s7)" using i6 by (simp add: dom_execute_order_market_price)
  have ni7: "?i \<notin> set (book_nodes ?s7)" using ni6 by simp
  have dir7: "direction (order_at ?s7 ?i) = BUY \<or> direction (order_at ?s7 ?i) = SELL"
    using dir dir6 by simp
  from execute_order_place_result[OF ok7 i7 ni7 dir7]
  obtain s8 where s8: "execute_order_place ?i ?s7 = Some s8" "book_ok s8"
      "\<forall>n. n \<noteq> ?i \<longrightarrow> AllOrders s8 n = AllOrders ?s7 n"
      "dom (AllOrders s8) = dom (AllOrders ?s7)"
      "order_at s8 ?i =
        (if open (order_at ?s7 ?i) \<and> orderType (order_at ?s7 ?i) \<noteq> LIMIT
         then (order_at ?s7 ?i)\<lparr>open := False, qty := 0\<rparr> else order_at ?s7 ?i)"
      "set (book_nodes s8) =
        (if open (order_at ?s7 ?i) \<and> orderType (order_at ?s7 ?i) = LIMIT
         then insert ?i (set (book_nodes ?s7)) else set (book_nodes ?s7))"
      "AllAccounts s8 = AllAccounts ?s7" "Quote s8 = Quote ?s7" "stderr_out s8 = stderr_out ?s7"
    by blast
  have ex: "execute_order nm account_int q p dir otype s =
      Some (\<lparr>oe_order = Some ?i, oe_error = 0\<rparr>, execute_order_ticker ?i s8)"
    unfolding execute_order_accepted[OF cap acc(2) p q(1) dir] c using s6(1) s8(1) by simp
  show ?thesis
  proof (rule that[of s4 s6 s8])
    show "\<forall>n. n \<noteq> ?i \<longrightarrow> AllOrders s8 n = AllOrders s6 n"
      using s8(3) by (simp add: execute_order_market_price_other)
    show "order_at s8 ?i =
          (if open (order_at s6 ?i) \<and> otype \<noteq> LIMIT
           then (order_at ?s7 ?i)\<lparr>open := False, qty := 0\<rparr> else order_at ?s7 ?i)"
      using s8(5) dir6 by simp
    show "set (book_nodes s8) =
          (if open (order_at s6 ?i) \<and> otype = LIMIT
           then insert ?i (set (book_nodes s6)) else set (book_nodes s6))"
      using s8(6) dir6 by simp
    show "set (book_nodes s6) \<subseteq> set (book_nodes s)" using s6(7) bn4 by simp
    show "dom (AllOrders s8) = dom (AllOrders s6)"
      using s8(4) i6 by (simp add: dom_execute_order_market_price)
    show "AllAccounts s8 = AllAccounts s6" using s8(7) by simp
    show "Quote s8 = Quote s6" using s8(8) by simp
    show "stderr_out s8 = stderr_out s6" using s8(9) by simp
  qed (fact c ok4 i4 ni4 r4 o4 f4 s6 i6 s8 ex)+
qed

lemma execute_order_book_ok:
  assumes ok: "book_ok s" and acc: "0 \<le> account_int" and q: "q \<le> 2147483647"
  shows "\<exists>r s'. execute_order nm account_int q p dir otype s = Some (r, s') \<and> book_ok s'"
proof (cases "next_id_static s < MAXORDERS \<and> account_int < MAXACCOUNTS \<and> 0 \<le> p \<and> 1 \<le> q \<and>
    (dir = BUY \<or> dir = SELL)")
  case True
  then have v: "next_id_static s < MAXORDERS" "account_int < MAXACCOUNTS" "0 \<le> p" "1 \<le> q"
    "dir = BUY \<or> dir = SELL" by simp_all
  show ?thesis
  proof (rule execute_order_steps[OF ok v(1) acc v(2) v(3) v(4) q v(5), of nm otype], goal_cases)
    case (1 s4 s6 s8)
    from 1(20,28) show ?case by simp
  qed
next
  case False
  then have "\<exists>e. execute_order nm account_int q p dir otype s = Some (e, s)"
    unfolding execute_order_def next_id_no_iterate by auto
  with ok show ?thesis by blast
qed

subsection \<open>Finding a resting order\<close>

lemma find_level_loop_Some:
  "find_level_loop bids p ls = Some k \<Longrightarrow> k < length ls \<and> level_price (ls ! k) = p"
  by (induction ls arbitrary: k) (auto split: if_splits)

lemma find_level_loop_ordered:
  "prices_ordered bids (map level_price ls) \<Longrightarrow> k < length ls \<Longrightarrow>
   find_level_loop bids (level_price (ls ! k)) ls = Some k"
proof (induction ls arbitrary: k)
  case Nil
  then show ?case by simp
next
  case (Cons l ls)
  show ?case
  proof (cases k)
    case 0
    then show ?thesis by simp
  next
    case (Suc k')
    then have k': "k' < length ls" using Cons.prems(2) by simp
    then have "ls ! k' \<in> set ls" by simp
    then have gt: "if bids then level_price (ls ! k') < level_price l
        else level_price l < level_price (ls ! k')"
      using Cons.prems(1) by (auto split: if_splits)
    have "find_level_loop bids (level_price (ls ! k')) ls = Some k'"
      using Cons.prems(1) k' by (intro Cons.IH) simp_all
    then show ?thesis using gt Suc by (cases bids) auto
  qed
qed

lemma find_ordernode_loop_Some:
  "find_ordernode_loop s i ns = Some ni \<Longrightarrow> ni < length ns \<and> order_id (order_at s (ns ! ni)) = i"
proof (induction ns arbitrary: ni)
  case Nil
  then show ?case by simp
next
  case (Cons n ns)
  show ?case
  proof (cases "order_id (order_at s n) = i")
    case True
    with Cons.prems show ?thesis by simp
  next
    case False
    with Cons.prems obtain k' where k': "find_ordernode_loop s i ns = Some k'" "ni = Suc k'"
      by auto
    from Cons.IH[OF k'(1)] k'(2) show ?thesis by simp
  qed
qed

lemma find_ordernode_loop_None:
  "find_ordernode_loop s i ns = None \<longleftrightarrow> (\<forall>n \<in> set ns. order_id (order_at s n) \<noteq> i)"
  by (induction ns) auto

lemma find_ordernode_loop_member:
  assumes "\<forall>n \<in> set ns. order_id (order_at s n) = n" and "i \<in> set ns"
  shows "\<exists>ni. find_ordernode_loop s i ns = Some ni \<and> ni < length ns \<and> ns ! ni = i"
proof -
  from assms have "find_ordernode_loop s i ns \<noteq> None"
    by (auto simp: find_ordernode_loop_None)
  then obtain ni where ni: "find_ordernode_loop s i ns = Some ni" by auto
  from find_ordernode_loop_Some[OF ni] have "ni < length ns" "order_id (order_at s (ns ! ni)) = i"
    by simp_all
  moreover from this assms(1) have "ns ! ni = i" by (metis nth_mem)
  ultimately show ?thesis using ni by simp
qed

subsection \<open>Taking a node off a chain\<close>

lemma prices_ordered_remove:
  "prices_ordered bids xs \<Longrightarrow> prices_ordered bids (take k xs @ drop (Suc k) xs)"
proof (induction xs arbitrary: k)
  case Nil
  then show ?case by simp
next
  case (Cons x xs)
  show ?case
  proof (cases k)
    case 0
    then show ?thesis using Cons.prems by simp
  next
    case (Suc k')
    have "prices_ordered bids (take k' xs @ drop (Suc k') xs)"
      using Cons.prems by (intro Cons.IH) simp
    moreover have "set (take k' xs @ drop (Suc k') xs) \<subseteq> set xs"
      using set_take_subset[of k' xs] set_drop_subset[of "Suc k'" xs] by auto
    ultimately show ?thesis using Cons.prems Suc by auto
  qed
qed

lemma side_ok_remove_level:
  assumes "side_ok s bids ls"
  shows "side_ok s bids (take k ls @ drop (Suc k) ls)"
proof -
  have "prices_ordered bids (map level_price (take k ls @ drop (Suc k) ls))"
    using prices_ordered_remove[of bids "map level_price ls" k] assms
    by (simp add: side_ok_def take_map drop_map)
  moreover have "set (take k ls @ drop (Suc k) ls) \<subseteq> set ls"
    using set_take_subset[of k ls] set_drop_subset[of "Suc k" ls] by auto
  ultimately show ?thesis using assms unfolding side_ok_def by blast
qed

lemma side_ok_update_level:
  assumes "side_ok s bids ls" and "k < length ls" and "ns \<noteq> []"
    and "set ns \<subseteq> set (firstordernode (ls ! k))"
  shows "side_ok s bids (ls[k := (ls ! k)\<lparr>firstordernode := ns\<rparr>])"
proof -
  let ?l' = "(ls ! k)\<lparr>firstordernode := ns\<rparr>"
  have "map level_price (ls[k := ?l']) = map level_price ls"
    by (simp add: map_update list_update_same_conv assms(2))
  moreover have "\<forall>l \<in> set (ls[k := ?l']). firstordernode l \<noteq> [] \<and>
         (\<forall>n \<in> set (firstordernode l). resting_at s bids (level_price l) n)"
  proof
    fix l assume "l \<in> set (ls[k := ?l'])"
    then have "l = ?l' \<or> l \<in> set ls" using set_update_subset_insert[of ls k ?l'] by auto
    moreover have "ls ! k \<in> set ls" using assms(2) by simp
    ultimately show "firstordernode l \<noteq> [] \<and>
         (\<forall>n \<in> set (firstordernode l). resting_at s bids (level_price l) n)"
      using assms(1,3,4) unfolding side_ok_def by auto
  qed
  ultimately show ?thesis using assms(1) by (simp add: side_ok_def)
qed

lemma concat_nodes_split:
  assumes "k < length ls" and "ni < length (firstordernode (ls ! k))"
  shows "concat (map firstordernode ls) =
     concat (map firstordernode (take k ls)) @ take ni (firstordernode (ls ! k)) @
     [firstordernode (ls ! k) ! ni] @ drop (Suc ni) (firstordernode (ls ! k)) @
     concat (map firstordernode (drop (Suc k) ls))"
proof -
  have "ls = take k ls @ ls ! k # drop (Suc k) ls" using assms(1) by (rule id_take_nth_drop)
  then have "concat (map firstordernode ls) =
      concat (map firstordernode (take k ls)) @ firstordernode (ls ! k) @
      concat (map firstordernode (drop (Suc k) ls))"
    by (metis concat.simps(2) concat_append list.simps(9) map_append)
  moreover have "firstordernode (ls ! k) = take ni (firstordernode (ls ! k)) @
      [firstordernode (ls ! k) ! ni] @ drop (Suc ni) (firstordernode (ls ! k))"
    using id_take_nth_drop[OF assms(2)] by simp
  ultimately show ?thesis by simp
qed

lemma concat_nodes_update:
  assumes "k < length ls"
  shows "concat (map firstordernode (ls[k := (ls ! k)\<lparr>firstordernode := ns\<rparr>])) =
     concat (map firstordernode (take k ls)) @ ns @ concat (map firstordernode (drop (Suc k) ls))"
  by (simp add: upd_conv_take_nth_drop[OF assms])

lemma remove_node_chain:
  assumes k: "k < length C" and ni: "ni < length (firstordernode (C ! k))"
    and d: "distinct (concat (map firstordernode C))" and so: "side_ok s b C"
    and N': "N' = take ni (firstordernode (C ! k)) @ drop (Suc ni) (firstordernode (C ! k))"
    and C': "C' = (if N' \<noteq> [] then C[k := (C ! k)\<lparr>firstordernode := N'\<rparr>]
                   else take k C @ drop (Suc k) C)"
  shows "side_ok s b C'"
    and "distinct (concat (map firstordernode C'))"
    and "set (concat (map firstordernode C')) =
           set (concat (map firstordernode C)) - {firstordernode (C ! k) ! ni}"
proof -
  let ?N = "firstordernode (C ! k)"
  let ?pre = "concat (map firstordernode (take k C))"
  let ?post = "concat (map firstordernode (drop (Suc k) C))"
  have old: "concat (map firstordernode C) =
      ?pre @ take ni ?N @ [?N ! ni] @ drop (Suc ni) ?N @ ?post"
    using k ni by (rule concat_nodes_split)
  have new: "concat (map firstordernode C') = ?pre @ N' @ ?post"
  proof (cases "N' \<noteq> []")
    case True
    then show ?thesis unfolding C' using concat_nodes_update[OF k, of N'] by simp
  next
    case False
    then show ?thesis unfolding C' by simp
  qed
  have sub: "set N' \<subseteq> set ?N"
    unfolding N' using set_take_subset[of ni ?N] set_drop_subset[of "Suc ni" ?N] by auto
  show "side_ok s b C'"
  proof (cases "N' \<noteq> []")
    case True
    then show ?thesis unfolding C' using side_ok_update_level[OF so k True sub] by simp
  next
    case False
    then show ?thesis unfolding C' using side_ok_remove_level[OF so, of k] by simp
  qed
  from d have d': "distinct (?pre @ take ni ?N @ [?N ! ni] @ drop (Suc ni) ?N @ ?post)"
    unfolding old .
  show "distinct (concat (map firstordernode C'))"
    unfolding new N' using d' by auto
  show "set (concat (map firstordernode C')) =
           set (concat (map firstordernode C)) - {?N ! ni}"
    unfolding new N' old using d' by auto
qed

lemma level_chain_upd_order [simp]: "level_chain (upd_order i f s) b = level_chain s b"
  by (simp add: level_chain_def)

lemma book_nodes_chains:
  "book_nodes s = concat (map firstordernode (level_chain s True)) @
                  concat (map firstordernode (level_chain s False))"
  by (simp add: book_nodes_def level_chain_def)

lemma chains_ok_iff_chain:
  "chains_ok s \<longleftrightarrow>
     store_ok s \<and> side_ok s b (level_chain s b) \<and> side_ok s (\<not> b) (level_chain s (\<not> b)) \<and>
     distinct (concat (map firstordernode (level_chain s b))) \<and>
     distinct (concat (map firstordernode (level_chain s (\<not> b)))) \<and>
     set (concat (map firstordernode (level_chain s b))) \<inter>
       set (concat (map firstordernode (level_chain s (\<not> b)))) = {}"
  unfolding chains_ok_def book_nodes_def level_chain_def
  by (cases b) auto

lemma set_book_nodes_chain:
  "set (book_nodes s) = set (concat (map firstordernode (level_chain s b))) \<union>
     set (concat (map firstordernode (level_chain s (\<not> b))))"
  unfolding book_nodes_def level_chain_def by (cases b) auto

text \<open>Closing an order that rests on the book: the chains stay well formed.\<close>

lemma chains_ok_close:
  assumes ch: "chains_ok s" and i: "i \<in> dom (AllOrders s)" and op: "open (order_at s i)"
  shows "chains_ok (upd_order i (\<lambda>r. r\<lparr>qty := 0\<rparr>) (upd_order i (\<lambda>r. r\<lparr>open := False\<rparr>) s))"
  unfolding upd_order_twice
proof (rule chains_ok_frame[OF ch])
  let ?s2 = "upd_order i (\<lambda>r. r\<lparr>open := False, qty := 0\<rparr>) s"
  show "dom (AllOrders ?s2) = dom (AllOrders s)" using i by (rule dom_AllOrders_upd_order)
  fix n assume n: "n \<in> dom (AllOrders s)"
  have "order_ok (order_at s n)" using ch n by (simp add: chains_ok_def store_ok_iff)
  then show "order_ok (order_at ?s2 n) \<and> order_id (order_at ?s2 n) = order_id (order_at s n) \<and>
      account (order_at ?s2 n) = account (order_at s n)"
    using op by (auto simp: order_ok_def)
qed simp_all

lemma cancel_found:
  assumes ok: "book_ok s" and i: "i \<in> dom (AllOrders s)"
    and lv: "find_level (price (order_at s i)) (direction (order_at s i)) s = Some (b, k)"
    and nd: "find_ordernode (Some (b, k)) i s = Some ni"
  shows "firstordernode (level_chain s b ! k) ! ni = i \<and> i \<in> set (book_nodes s) \<and>
     (\<exists>s3. cleanup_after_cancel ni (b, k)
             (upd_order i (\<lambda>r. r\<lparr>qty := 0\<rparr>) (upd_order i (\<lambda>r. r\<lparr>open := False\<rparr>) s)) = Some s3 \<and>
          book_ok s3 \<and> AllOrders s3 = (AllOrders s)(i \<mapsto> (order_at s i)\<lparr>open := False, qty := 0\<rparr>) \<and>
          set (book_nodes s3) = set (book_nodes s) - {i} \<and>
          AllAccounts s3 = AllAccounts s \<and> Quote s3 = Quote s \<and> stderr_out s3 = stderr_out s \<and>
          clock s3 = clock s)"
proof -
  let ?C = "level_chain s b"
  let ?N = "firstordernode (?C ! k)"
  let ?s2 = "upd_order i (\<lambda>r. r\<lparr>qty := 0\<rparr>) (upd_order i (\<lambda>r. r\<lparr>open := False\<rparr>) s)"
  from ok have ch: "chains_ok s" and op: "\<forall>n \<in> set (book_nodes s). open (order_at s n)"
    by (simp_all add: book_ok_def)
  from ch have so: "store_ok s" by (simp add: chains_ok_def)
  from lv have b: "b = (direction (order_at s i) = BUY)"
    and fl: "find_level_loop b (price (order_at s i)) ?C = Some k"
    by (auto simp: find_level_def level_chain_def split: if_splits)
  from find_level_loop_Some[OF fl] have k: "k < length ?C" by simp
  from nd have fn: "find_ordernode_loop s i ?N = Some ni" by (simp add: find_ordernode_def)
  from find_ordernode_loop_Some[OF fn] have ni: "ni < length ?N"
    and id: "order_id (order_at s (?N ! ni)) = i" by simp_all
  have mem: "?N ! ni \<in> set (concat (map firstordernode ?C))"
    using k ni by (auto intro!: bexI[of _ "?C ! k"])
  then have memb: "?N ! ni \<in> set (book_nodes s)" using set_book_nodes_chain[of s b] by simp
  then have "?N ! ni \<in> dom (AllOrders s)" using chains_ok_nodes_dom[OF ch] by auto
  then have "order_id (order_at s (?N ! ni)) = ?N ! ni" using so by (simp add: store_ok_iff)
  with id have node: "?N ! ni = i" by simp
  have opi: "open (order_at s i)" using memb op node by auto
  have ch2: "chains_ok ?s2" using ch i opi by (rule chains_ok_close)
  note c2 = ch2[unfolded chains_ok_iff_chain[of ?s2 b]]
  have C2: "level_chain ?s2 b = ?C" "level_chain ?s2 (\<not> b) = level_chain s (\<not> b)" by simp_all
  define N' where "N' = take ni ?N @ drop (Suc ni) ?N"
  define C' where "C' = (if N' \<noteq> [] then ?C[k := (?C ! k)\<lparr>firstordernode := N'\<rparr>]
                   else take k ?C @ drop (Suc k) ?C)"
  define s3 where "s3 = (if b then ?s2\<lparr>FirstBidLevel := C'\<rparr> else ?s2\<lparr>FirstAskLevel := C'\<rparr>)"
  have dirn: "(direction (order_at ?s2 (?N ! ni)) = BUY) = b" unfolding node using b by simp
  have drop1: "drop 1 ?C = take 0 ?C @ drop (Suc 0) ?C" by simp
  have ex: "cleanup_after_cancel ni (b, k) ?s2 = Some s3"
    unfolding cleanup_after_cancel_def Let_def prod.case C2 s3_def C'_def N'_def
    using dirn by (cases "k = 0") (auto simp: Let_def)
  have d: "distinct (concat (map firstordernode ?C))" and sb: "side_ok ?s2 b ?C"
    using c2 unfolding C2 by simp_all
  note rm = remove_node_chain[OF k ni d sb N'_def C'_def]
  have lc3: "level_chain s3 b = C'" "level_chain s3 (\<not> b) = level_chain s (\<not> b)"
    unfolding s3_def by (cases b; simp add: level_chain_def)+
  have ao3: "AllOrders s3 = AllOrders ?s2" unfolding s3_def by simp
  have so3: "store_ok s3"
    using c2 unfolding s3_def by (cases b) (simp_all add: store_ok_def)
  have "chains_ok s3"
    unfolding chains_ok_iff_chain[of s3 b] lc3 side_ok_cong[OF ao3]
    using so3 rm(1,2,3) c2 unfolding C2 by auto
  moreover have set3: "set (book_nodes s3) = set (book_nodes s) - {i}"
    unfolding set_book_nodes_chain[of s3 b] set_book_nodes_chain[of s b] lc3 rm(3) node
    using c2 mem unfolding C2 node by auto
  moreover have "\<forall>n \<in> set (book_nodes s3). open (order_at s3 n)"
  proof
    fix n assume "n \<in> set (book_nodes s3)"
    then have "n \<in> set (book_nodes s)" "n \<noteq> i" unfolding set3 by auto
    then show "open (order_at s3 n)" using op by (simp add: order_at_cong[OF ao3])
  qed
  moreover have "AllOrders s3 = (AllOrders s)(i \<mapsto> (order_at s i)\<lparr>open := False, qty := 0\<rparr>)"
    unfolding ao3 by (simp add: upd_order_def order_at_def)
  moreover have "AllAccounts s3 = AllAccounts s" "Quote s3 = Quote s" "stderr_out s3 = stderr_out s"
    "clock s3 = clock s"
    unfolding s3_def by (cases b; simp)+
  ultimately show ?thesis using node memb ex by (simp add: book_ok_def)
qed

subsection \<open>Cancelling keeps the book well formed\<close>

lemma resting_found:
  assumes ok: "book_ok s" and ib: "i \<in> set (book_nodes s)"
  shows "orderType (order_at s i) = LIMIT \<and>
     (\<exists>b k ni. find_level (price (order_at s i)) (direction (order_at s i)) s = Some (b, k) \<and>
        find_ordernode (Some (b, k)) i s = Some ni)"
proof -
  from ok have ch: "chains_ok s" by (simp add: book_ok_def)
  from ch have so: "store_ok s" by (simp add: chains_ok_def)
  from ib obtain b where "i \<in> set (concat (map firstordernode (level_chain s b)))"
    using set_book_nodes_chain[of s True] by auto
  then obtain l where l: "l \<in> set (level_chain s b)" "i \<in> set (firstordernode l)" by auto
  then obtain k where k: "k < length (level_chain s b)" "level_chain s b ! k = l"
    by (auto simp: in_set_conv_nth)
  have sd: "side_ok s b (level_chain s b)"
    using ch by (cases b) (simp_all add: chains_ok_def level_chain_def)
  then have r: "resting_at s b (level_price l) i" and
    all: "\<forall>n \<in> set (firstordernode l). resting_at s b (level_price l) n"
    using l by (simp_all add: side_ok_def)
  from r have lim: "orderType (order_at s i) = LIMIT" and pr: "price (order_at s i) = level_price l"
    and dr: "direction (order_at s i) = (if b then BUY else SELL)"
    by (simp_all add: resting_at_iff)
  have db: "(direction (order_at s i) = BUY) = b" using dr by (simp add: BUY_def SELL_def)
  have "find_level_loop b (level_price (level_chain s b ! k)) (level_chain s b) = Some k"
    using sd k(1) by (intro find_level_loop_ordered) (simp add: side_ok_def)
  then have fl: "find_level (price (order_at s i)) (direction (order_at s i)) s = Some (b, k)"
    using db pr k(2) by (cases b) (auto simp: find_level_def level_chain_def)
  have ids: "\<forall>n \<in> set (firstordernode l). order_id (order_at s n) = n"
  proof
    fix n assume "n \<in> set (firstordernode l)"
    with all have "n \<in> dom (AllOrders s)" by (simp add: resting_at_iff)
    with so show "order_id (order_at s n) = n" by (simp add: store_ok_iff)
  qed
  from find_ordernode_loop_member[OF ids l(2)]
  obtain ni where "find_ordernode_loop s i (firstordernode l) = Some ni" by blast
  then have "find_ordernode (Some (b, k)) i s = Some ni" by (simp add: find_ordernode_def k(2))
  with lim fl show ?thesis by blast
qed

lemma store_ok_known:
  "store_ok s \<Longrightarrow> i \<in> dom (AllOrders s) \<Longrightarrow> 0 \<le> i \<and> i \<le> HighestKnownOrder s"
  by (auto simp: store_ok_iff)

lemma cancel_not_resting:
  assumes ok: "book_ok s" and i: "i \<in> dom (AllOrders s)" and ni: "i \<notin> set (book_nodes s)"
  shows "cancel_order_by_id i s = Some s"
proof -
  from ok have so: "store_ok s" by (simp add: book_ok_def chains_ok_def)
  note rng = store_ok_known[OF so i]
  show ?thesis
  proof (cases "find_level (price (order_at s i)) (direction (order_at s i)) s")
    case None
    then show ?thesis using rng by (simp add: cancel_order_by_id_def Let_def find_ordernode_def)
  next
    case (Some lv)
    obtain b k where lv: "lv = (b, k)" by (cases lv)
    show ?thesis
    proof (cases "find_ordernode (Some (b, k)) i s")
      case None
      then show ?thesis using rng Some lv by (simp add: cancel_order_by_id_def Let_def)
    next
      case (Some n)
      from cancel_found[OF ok i \<open>find_level _ _ s = Some lv\<close>[unfolded lv] Some] ni
      show ?thesis by simp
    qed
  qed
qed

lemma cancel_resting:
  assumes ok: "book_ok s" and i: "i \<in> dom (AllOrders s)" and ib: "i \<in> set (book_nodes s)"
  shows "\<exists>s3. cancel_order_by_id i s = Some (create_ticker_message (remake_most_of_quote s3)) \<and>
          book_ok s3 \<and> AllOrders s3 = (AllOrders s)(i \<mapsto> (order_at s i)\<lparr>open := False, qty := 0\<rparr>) \<and>
          set (book_nodes s3) = set (book_nodes s) - {i} \<and>
          AllAccounts s3 = AllAccounts s \<and> Quote s3 = Quote s \<and> stderr_out s3 = stderr_out s \<and>
          clock s3 = clock s"
proof -
  from ok have so: "store_ok s" by (simp add: book_ok_def chains_ok_def)
  note rng = store_ok_known[OF so i]
  from resting_found[OF ok ib] obtain b k ni where
    lim: "orderType (order_at s i) = LIMIT"
    and fl: "find_level (price (order_at s i)) (direction (order_at s i)) s = Some (b, k)"
    and fn: "find_ordernode (Some (b, k)) i s = Some ni"
    by blast
  from cancel_found[OF ok i fl fn] obtain s3 where
    node: "firstordernode (level_chain s b ! k) ! ni = i"
    and cl: "cleanup_after_cancel ni (b, k)
             (upd_order i (\<lambda>r. r\<lparr>qty := 0\<rparr>) (upd_order i (\<lambda>r. r\<lparr>open := False\<rparr>) s)) = Some s3"
    and rest: "book_ok s3" "AllOrders s3 = (AllOrders s)(i \<mapsto> (order_at s i)\<lparr>open := False, qty := 0\<rparr>)"
      "set (book_nodes s3) = set (book_nodes s) - {i}"
      "AllAccounts s3 = AllAccounts s" "Quote s3 = Quote s" "stderr_out s3 = stderr_out s"
      "clock s3 = clock s"
    by blast
  have "cancel_order_by_id i s = Some (create_ticker_message (remake_most_of_quote s3))"
    using rng lim fl fn node cl by (simp add: cancel_order_by_id_def Let_def)
  with rest show ?thesis by blast
qed

lemma cancel_order_by_id_book_ok:
  assumes ok: "book_ok s" and i: "i \<in> dom (AllOrders s)"
  shows "\<exists>s'. cancel_order_by_id i s = Some s' \<and> book_ok s'"
proof (cases "i \<in> set (book_nodes s)")
  case True
  from cancel_resting[OF ok i True] obtain s3 where
    c: "cancel_order_by_id i s = Some (create_ticker_message (remake_most_of_quote s3))"
    and b: "book_ok s3" by blast
  have "book_ok (create_ticker_message (remake_most_of_quote s3)) = book_ok s3"
    by (rule book_ok_cong) simp_all
  with c b show ?thesis by simp
next
  case False
  with cancel_not_resting[OF ok i] ok show ?thesis by simp
qed

subsection \<open>Every reachable state is well formed\<close>

lemma book_ok_initial: "book_ok initial_state"
  by (simp add: book_ok_def chains_ok_def store_ok_def book_nodes_def initial_state_def
      MAXORDERS_def)

lemma execute_order_negative_account:
  assumes "account_int < 0" and "execute_order nm account_int q p dir otype s = Some (r, s')"
  shows "s' = s"
proof -
  have "execute_order_create nm account_int q p dir otype s = None"
    using assms(1) by (simp add: execute_order_create_def account_lookup_or_create_def)
  with assms(2) show ?thesis
    unfolding execute_order_def by (auto split: if_splits)
qed

lemma main_step_book_ok:
  assumes ok: "book_ok s" and c: "command_ok c" and st: "main_step c s = Some (r, s')"
  shows "book_ok s'"
proof (cases c)
  case (ORDER_command nm account_int q p dir otype)
  with st obtain oe where ex: "execute_order nm account_int q p dir otype s = Some (oe, s')"
    by (auto simp: main_ORDER_def split: option.splits if_splits)
  show ?thesis
  proof (cases "account_int < 0")
    case True
    from execute_order_negative_account[OF True ex] ok show ?thesis by simp
  next
    case False
    moreover have "q \<le> 2147483647" using c ORDER_command by (simp add: is_int32_def)
    ultimately obtain r' s'' where "execute_order nm account_int q p dir otype s = Some (r', s'')"
      "book_ok s''"
      using execute_order_book_ok[OF ok, of account_int q nm p dir otype] by auto
    with ex show ?thesis by simp
  qed
next
  case (CANCEL_command i)
  show ?thesis
  proof (cases "i < 0 \<or> i > HighestKnownOrder s \<or> AllOrders s i = None")
    case True
    with st CANCEL_command ok show ?thesis by (simp add: main_CANCEL_def)
  next
    case False
    then have i: "i \<in> dom (AllOrders s)" by auto
    from cancel_order_by_id_book_ok[OF ok i] obtain s'' where
      "cancel_order_by_id i s = Some s''" "book_ok s''" by blast
    with st CANCEL_command False show ?thesis by (simp add: main_CANCEL_def)
  qed
next
  case (STATUS_command i)
  with st ok show ?thesis by (auto simp: main_STATUS_def split: if_splits)
qed

lemma reachable_book_ok: "reachable s \<Longrightarrow> book_ok s"
  by (induction rule: reachable.induct) (auto intro: book_ok_initial main_step_book_ok)

section \<open>The example states are reachable\<close>

lemma main_step_resting_bid_state:
  "main_step (ORDER_command ''A'' 0 100 5000 1 1) initial_state =
     Some (Order_reply (print_order resting_bid_state 0), resting_bid_state)"
  by (simp add: main_ORDER_def execute_order_def next_id_def MAXORDERS_def MAXACCOUNTS_def
      BUY_def SELL_def LIMIT_def MARKET_def FOK_def initial_state_def execute_order_create_def
      account_lookup_or_create_def init_order_def new_timestamp_def Let_def
      add_order_to_account_def init_account_def safe_strcpy_def SMALLSTRING_def
      account_at_def execute_order_run_def run_order_def order_at_def
      execute_order_cleanup_def execute_order_market_price_def execute_order_place_def
      insert_bid_def insert_ask_def execute_order_ticker_def remake_most_of_quote_def
      create_ticker_message_def get_size_from_level_def get_depth_def int64_of_def
      resting_bid_state_def example_bid_def example_quote_def upd_order_def
      eval_nat_numeral)

lemma reachable_resting_bid_state: "reachable resting_bid_state"
proof (rule reachable_step[OF reachable_init _ main_step_resting_bid_state])
  show "command_ok (ORDER_command ''A'' 0 100 5000 1 1)" by (simp add: is_int32_def)
qed

section \<open>Fill-or-kill\<close>

lemma decrement_reaches_zero_append:
  "decrement_reaches_zero q (xs @ ys) =
     (decrement_reaches_zero q xs \<or> decrement_reaches_zero (q - sum_list xs) ys)"
  by (induction xs arbitrary: q) (auto simp: algebra_simps)

lemma decrement_reaches_zero_sum:
  "\<forall>x \<in> set xs. 0 \<le> x \<Longrightarrow> 1 \<le> q \<Longrightarrow> decrement_reaches_zero q xs \<longleftrightarrow> q \<le> sum_list xs"
proof (induction xs arbitrary: q)
  case Nil
  then show ?case by simp
next
  case (Cons x xs)
  have nn: "0 \<le> sum_list xs" using Cons.prems(1) by (intro sum_list_nonneg) simp
  show ?case
  proof (cases "q - x \<le> 0")
    case True
    then show ?thesis using nn by simp
  next
    case False
    then have "decrement_reaches_zero (q - x) xs \<longleftrightarrow> q - x \<le> sum_list xs"
      using Cons.prems by (intro Cons.IH) simp_all
    then show ?thesis using False by auto
  qed
qed

text \<open>
  The inner loop on quantities within the \<^verbatim>\<open>int\<close> range: no subtraction wraps, the loop
  returns exactly when the exact running decrement reaches \<open>\<le> 0\<close>, and otherwise it
  leaves the exact remainder, which is still positive.
\<close>

lemma fok_nodes_exact:
  assumes "1 \<le> q" and "q \<le> 2147483647"
    and "\<forall>n \<in> set ns. 0 \<le> qty (order_at s n) \<and> qty (order_at s n) \<le> 2147483647"
  shows "fst (fok_nodes s ns q) = decrement_reaches_zero q (map (\<lambda>n. qty (order_at s n)) ns) \<and>
     (\<not> fst (fok_nodes s ns q) \<longrightarrow>
        snd (fok_nodes s ns q) = q - sum_list (map (\<lambda>n. qty (order_at s n)) ns) \<and>
        1 \<le> snd (fok_nodes s ns q) \<and> snd (fok_nodes s ns q) \<le> 2147483647)"
  using assms
proof (induction ns arbitrary: q)
  case Nil
  then show ?case by simp
next
  case (Cons n ns)
  let ?x = "qty (order_at s n)"
  have x: "0 \<le> ?x" "?x \<le> 2147483647" using Cons.prems(3) by simp_all
  have w: "int32_of (q - ?x) = q - ?x"
    using Cons.prems(1,2) x by (intro int32_of_id) linarith+
  show ?case
  proof (cases "q - ?x \<le> 0")
    case True
    then show ?thesis by (simp add: w Let_def)
  next
    case False
    have ih: "fst (fok_nodes s ns (q - ?x)) =
        decrement_reaches_zero (q - ?x) (map (\<lambda>n. qty (order_at s n)) ns) \<and>
     (\<not> fst (fok_nodes s ns (q - ?x)) \<longrightarrow>
        snd (fok_nodes s ns (q - ?x)) = q - ?x - sum_list (map (\<lambda>n. qty (order_at s n)) ns) \<and>
        1 \<le> snd (fok_nodes s ns (q - ?x)) \<and> snd (fok_nodes s ns (q - ?x)) \<le> 2147483647)"
    proof (rule Cons.IH)
      show "1 \<le> q - ?x" using False by simp
      show "q - ?x \<le> 2147483647" using Cons.prems(2) x by linarith
      show "\<forall>n \<in> set ns. 0 \<le> qty (order_at s n) \<and> qty (order_at s n) \<le> 2147483647"
        using Cons.prems(3) by simp
    qed
    have step: "fok_nodes s (n # ns) q = fok_nodes s ns (q - ?x)"
      using False by (simp add: w Let_def)
    show ?thesis unfolding step using ih False by (simp add: algebra_simps)
  qed
qed

lemma fok_levels_exact:
  assumes "1 \<le> q" and "q \<le> 2147483647"
    and "\<forall>n \<in> set (concat (map firstordernode ls)).
           0 \<le> qty (order_at s n) \<and> qty (order_at s n) \<le> 2147483647"
  shows "fok_levels buying s ls q p =
     decrement_reaches_zero q
       (map (\<lambda>n. qty (order_at s n))
          (concat (map firstordernode
             (takeWhile (\<lambda>l. if buying then level_price l \<le> p else level_price l \<ge> p) ls))))"
  using assms
proof (induction ls arbitrary: q)
  case Nil
  then show ?case by simp
next
  case (Cons l ls)
  let ?adm = "\<lambda>l. if buying then level_price l \<le> p else level_price l \<ge> p"
  let ?qs = "map (\<lambda>n. qty (order_at s n)) (firstordernode l)"
  show ?case
  proof (cases "?adm l")
    case False
    then show ?thesis by simp
  next
    case True
    have rng: "\<forall>n \<in> set (firstordernode l). 0 \<le> qty (order_at s n) \<and> qty (order_at s n) \<le> 2147483647"
      using Cons.prems(3) by simp
    note nodes = fok_nodes_exact[OF Cons.prems(1,2) rng]
    show ?thesis
    proof (cases "fst (fok_nodes s (firstordernode l) q)")
      case t: True
      then have "fok_levels buying s (l # ls) q p" using True by (simp add: case_prod_beta)
      moreover have "decrement_reaches_zero q ?qs" using nodes t by simp
      ultimately show ?thesis using True by (simp add: decrement_reaches_zero_append)
    next
      case f: False
      let ?q' = "snd (fok_nodes s (firstordernode l) q)"
      from nodes f have q': "?q' = q - sum_list ?qs" "1 \<le> ?q'" "?q' \<le> 2147483647"
        and no: "\<not> decrement_reaches_zero q ?qs" by simp_all
      have ih: "fok_levels buying s ls ?q' p =
        decrement_reaches_zero ?q'
         (map (\<lambda>n. qty (order_at s n)) (concat (map firstordernode (takeWhile ?adm ls))))"
      proof (rule Cons.IH[OF q'(2,3)])
        show "\<forall>n \<in> set (concat (map firstordernode ls)).
           0 \<le> qty (order_at s n) \<and> qty (order_at s n) \<le> 2147483647"
          using Cons.prems(3) by simp
      qed
      have "fok_levels buying s (l # ls) q p = fok_levels buying s ls ?q' p"
        using True f by (simp add: case_prod_beta)
      then show ?thesis
        unfolding ih using True no q'(1) by (simp add: decrement_reaches_zero_append)
    qed
  qed
qed

text \<open>
  A walk over open orders whose quantities cover the incoming one fills it completely.
\<close>

lemma walk_fills:
  assumes "distinct ns" and "i \<notin> set ns" and "\<forall>n \<in> set ns. 0 < qty (order_at s n)"
    and "open (order_at s i)" and "0 < qty (order_at s i)"
    and "qty (order_at s i) \<le> sum_list (map (\<lambda>n. qty (order_at s n)) ns)"
  shows "\<not> open (order_at (walk ns i s) i) \<and> qty (order_at (walk ns i s) i) = 0 \<and>
     totalFilled (order_at (walk ns i s) i) = totalFilled (order_at s i) + qty (order_at s i)"
  using assms
proof (induction ns arbitrary: s)
  case Nil
  then show ?case by simp
next
  case (Cons n ns)
  let ?s1 = "cross n i s"
  have ni: "n \<noteq> i" and nn: "n \<notin> set ns" using Cons.prems(1,2) by auto
  have same: "order_at ?s1 m = order_at s m" if "m \<in> set ns" for m
  proof -
    from that have "m \<noteq> n" "m \<noteq> i" using nn Cons.prems(2) by auto
    then show ?thesis by (rule cross_other)
  qed
  have qi: "order_at ?s1 i = (order_at s i)\<lparr>
      qty := qty (order_at s i) - min (qty (order_at s n)) (qty (order_at s i)),
      totalFilled := totalFilled (order_at s i) + min (qty (order_at s n)) (qty (order_at s i)),
      firstfillnode := firstfillnode (order_at s i) @
         [\<lparr>fill_price = price (order_at s n),
           fill_qty = min (qty (order_at s n)) (qty (order_at s i)), fill_ts = clock s\<rparr>],
      open := open (order_at s i) \<and>
        qty (order_at s i) - min (qty (order_at s n)) (qty (order_at s i)) \<noteq> 0\<rparr>"
    using ni by (simp add: cross_order_at)
  show ?case
  proof (cases "qty (order_at s n) < qty (order_at s i)")
    case True
    then have m: "min (qty (order_at s n)) (qty (order_at s i)) = qty (order_at s n)" by simp
    have op1: "open (order_at ?s1 i)" using True Cons.prems(4) by (simp add: qi m)
    have ih: "\<not> open (order_at (walk ns i ?s1) i) \<and> qty (order_at (walk ns i ?s1) i) = 0 \<and>
        totalFilled (order_at (walk ns i ?s1) i) =
          totalFilled (order_at ?s1 i) + qty (order_at ?s1 i)"
    proof (rule Cons.IH)
      show "distinct ns" using Cons.prems(1) by simp
      show "i \<notin> set ns" using Cons.prems(2) by simp
      show "\<forall>m \<in> set ns. 0 < qty (order_at ?s1 m)" using Cons.prems(3) same by simp
      show "open (order_at ?s1 i)" by (rule op1)
      show "0 < qty (order_at ?s1 i)" using True by (simp add: qi m)
      have e: "map (\<lambda>m. qty (order_at ?s1 m)) ns = map (\<lambda>m. qty (order_at s m)) ns"
        using same by simp
      have "qty (order_at s i) - qty (order_at s n) \<le> sum_list (map (\<lambda>m. qty (order_at s m)) ns)"
        using Cons.prems(6) by simp
      then show "qty (order_at ?s1 i) \<le> sum_list (map (\<lambda>m. qty (order_at ?s1 m)) ns)"
        unfolding e by (simp add: qi m)
    qed
    have w: "walk (n # ns) i s = walk ns i ?s1" using op1 by (simp add: Let_def)
    show ?thesis unfolding w using ih by (simp add: qi m)
  next
    case False
    then have m: "min (qty (order_at s n)) (qty (order_at s i)) = qty (order_at s i)" by simp
    have cl: "\<not> open (order_at ?s1 i)" by (simp add: qi m)
    have w: "walk (n # ns) i s = ?s1" using cl by (simp add: Let_def)
    show ?thesis unfolding w by (simp add: qi m)
  qed
qed

lemma book_ok_resting_qty:
  assumes "book_ok s" and "n \<in> set (book_nodes s)"
  shows "open (order_at s n) \<and> 0 < qty (order_at s n) \<and> qty (order_at s n) \<le> 2147483647"
proof -
  from assms have op: "open (order_at s n)" by (simp add: book_ok_def)
  from assms have ch: "chains_ok s" by (simp add: book_ok_def)
  with assms(2) have "n \<in> dom (AllOrders s)" using chains_ok_nodes_dom by blast
  with ch have "order_ok (order_at s n)" by (simp add: chains_ok_def store_ok_iff)
  with op show ?thesis by (auto simp: order_ok_def)
qed

lemma fok_can_exact:
  assumes ok: "book_ok s" and q: "1 \<le> q" "q \<le> 2147483647"
  shows "fok_can_buy q p s = decrement_reaches_zero q (crossable_qtys s True p)"
    and "fok_can_sell q p s = decrement_reaches_zero q (crossable_qtys s False p)"
proof -
  have a: "\<forall>n \<in> set (concat (map firstordernode (FirstAskLevel s))).
      0 \<le> qty (order_at s n) \<and> qty (order_at s n) \<le> 2147483647"
  proof
    fix n assume "n \<in> set (concat (map firstordernode (FirstAskLevel s)))"
    then have "n \<in> set (book_nodes s)" by (simp add: book_nodes_def)
    from book_ok_resting_qty[OF ok this]
    show "0 \<le> qty (order_at s n) \<and> qty (order_at s n) \<le> 2147483647" by simp
  qed
  have b: "\<forall>n \<in> set (concat (map firstordernode (FirstBidLevel s))).
      0 \<le> qty (order_at s n) \<and> qty (order_at s n) \<le> 2147483647"
  proof
    fix n assume "n \<in> set (concat (map firstordernode (FirstBidLevel s)))"
    then have "n \<in> set (book_nodes s)" by (simp add: book_nodes_def)
    from book_ok_resting_qty[OF ok this]
    show "0 \<le> qty (order_at s n) \<and> qty (order_at s n) \<le> 2147483647" by simp
  qed
  show "fok_can_buy q p s = decrement_reaches_zero q (crossable_qtys s True p)"
    unfolding fok_can_buy_def crossable_qtys_def using fok_levels_exact[OF q a, of True p] by simp
  show "fok_can_sell q p s = decrement_reaches_zero q (crossable_qtys s False p)"
    unfolding fok_can_sell_def crossable_qtys_def using fok_levels_exact[OF q b, of False p] by simp
qed

lemma priority_sequence_limit_gated:
  assumes "direction (order_at s i) = BUY \<or> direction (order_at s i) = SELL"
    and "orderType (order_at s i) \<noteq> MARKET"
  shows "priority_sequence s i =
     concat (map firstordernode
       (takeWhile (\<lambda>l. if direction (order_at s i) = BUY then level_price l \<le> price (order_at s i)
                       else level_price l \<ge> price (order_at s i))
          (if direction (order_at s i) = BUY then FirstAskLevel s else FirstBidLevel s)))"
proof (cases "direction (order_at s i) = SELL")
  case True
  then have nb: "direction (order_at s i) \<noteq> BUY" by (simp add: BUY_def SELL_def)
  show ?thesis
    using True nb assms(2)
    by (simp add: priority_sequence_def opposite_side_def price_gate_def not_less)
next
  case False
  with assms(1) have b: "direction (order_at s i) = BUY" by simp
  show ?thesis
    using False b assms(2)
    by (simp add: priority_sequence_def opposite_side_def price_gate_def not_less)
qed

lemma priority_sequence_qtys:
  assumes "direction (order_at s i) = BUY \<or> direction (order_at s i) = SELL"
    and "orderType (order_at s i) \<noteq> MARKET"
  shows "map (\<lambda>n. qty (order_at s n)) (priority_sequence s i) =
     crossable_qtys s (direction (order_at s i) = BUY) (price (order_at s i))"
  unfolding priority_sequence_limit_gated[OF assms] crossable_qtys_def by simp

lemma crossable_qtys_cong:
  assumes "FirstBidLevel s' = FirstBidLevel s" and "FirstAskLevel s' = FirstAskLevel s"
    and "\<forall>n \<in> set (book_nodes s). order_at s' n = order_at s n"
  shows "crossable_qtys s' b p = crossable_qtys s b p"
proof -
  let ?ls = "takeWhile (\<lambda>l. if b then level_price l \<le> p else level_price l \<ge> p)
             (if b then FirstAskLevel s else FirstBidLevel s)"
  have "set ?ls \<subseteq> set (FirstBidLevel s @ FirstAskLevel s)"
    using set_takeWhileD[of _ _ "if b then FirstAskLevel s else FirstBidLevel s"] by auto
  then have "set (concat (map firstordernode ?ls)) \<subseteq> set (book_nodes s)"
    unfolding book_nodes_def by auto
  then have "map (\<lambda>n. qty (order_at s' n)) (concat (map firstordernode ?ls)) =
      map (\<lambda>n. qty (order_at s n)) (concat (map firstordernode ?ls))"
    using assms(3) by (intro map_cong) auto
  then show ?thesis unfolding crossable_qtys_def assms(1,2) by simp
qed

text \<open>
  An accepted order that is not a limit order: the final record of the order is the one
  after the run, closed if it was still open (and with price 0 for a market order); the
  order is nowhere on the book.
\<close>

lemma execute_order_not_limit:
  assumes ok: "book_ok s" and cap: "next_id_static s < MAXORDERS"
    and acc: "0 \<le> account_int" "account_int < MAXACCOUNTS"
    and p: "0 \<le> p" and q: "1 \<le> q" "q \<le> 2147483647" and dir: "dir = BUY \<or> dir = SELL"
    and nl: "otype \<noteq> LIMIT"
  obtains s4 s' where
    "execute_order_create nm account_int q p dir otype s = Some (next_id_static s, s4)"
    and "execute_order nm account_int q p dir otype s =
          Some (\<lparr>oe_order = Some (next_id_static s), oe_error = 0\<rparr>, s')"
    and "book_ok s4" and "next_id_static s \<in> dom (AllOrders s4)"
    and "next_id_static s \<notin> set (book_nodes s4)"
    and "order_at s4 (next_id_static s) =
          \<lparr>direction = dir, originalQty = q, qty = q, price = p, orderType = otype,
           order_id = next_id_static s, account = account_int, ts = clock s,
           firstfillnode = [], totalFilled = 0, open = True\<rparr>"
    and "\<forall>n. n \<noteq> next_id_static s \<longrightarrow> AllOrders s4 n = AllOrders s n"
    and "FirstBidLevel s4 = FirstBidLevel s" and "FirstAskLevel s4 = FirstAskLevel s"
    and "Quote s4 = Quote s" and "stderr_out s4 = stderr_out s"
    and "book_ok s'" and "next_id_static s \<in> dom (AllOrders s')"
    and "next_id_static s \<notin> set (book_nodes s')"
    and "\<not> open (order_at s' (next_id_static s))" and "qty (order_at s' (next_id_static s)) = 0"
    and "totalFilled (order_at s' (next_id_static s)) =
           totalFilled (order_at (execute_order_run (next_id_static s) s4) (next_id_static s))"
    and "firstfillnode (order_at s' (next_id_static s)) =
           firstfillnode (order_at (execute_order_run (next_id_static s) s4) (next_id_static s))"
    and "originalQty (order_at s' (next_id_static s)) = q"
    and "orderType (order_at s' (next_id_static s)) = otype"
    and "\<forall>n. n \<noteq> next_id_static s \<longrightarrow>
           AllOrders s' n = AllOrders (execute_order_run (next_id_static s) s4) n"
    and "totalFilled (order_at s' (next_id_static s)) = 0 \<longrightarrow>
           stderr_out s' = stderr_out (execute_order_run (next_id_static s) s4) \<and>
           Quote s' = Quote (execute_order_run (next_id_static s) s4)"
proof -
  show thesis
  proof (rule execute_order_steps[OF ok cap acc p q dir, of nm otype], goal_cases)
  case (1 s4 s6 s8)
  let ?i = "next_id_static s"
  let ?s5 = "execute_order_run ?i s4"
  let ?s7 = "execute_order_market_price ?i s6"
  let ?s' = "execute_order_ticker ?i s8"
  note create = 1(1) and ok4 = 1(2) and i4 = 1(3) and ni4 = 1(4) and r4 = 1(5) and o4 = 1(6)
    and f4 = 1(7,8,9,10) and ok6 = 1(12) and ao6 = 1(13) and q6 = 1(15) and e6 = 1(16)
    and bn6 = 1(17) and i6 = 1(18) and ok8 = 1(20) and o8 = 1(21) and r8 = 1(22) and bn8 = 1(23)
    and q8 = 1(25) and e8 = 1(26) and d8 = 1(27) and ex = 1(28)
  have oa6: "order_at s6 = order_at ?s5" using ao6 by (rule order_at_cong)
  have bn4: "book_nodes s4 = book_nodes s" by (simp add: book_nodes_def f4)
  have ni8: "?i \<notin> set (book_nodes s8)" using bn8 nl bn6 ni4 bn4 by auto
  have i8: "?i \<in> dom (AllOrders s8)" using d8 i6 by simp
  have ok8': "order_ok (order_at s8 ?i)" using ok8 i8 by (rule book_ok_order_ok)
  have cl: "\<not> open (order_at s8 ?i)" using r8 nl by (simp split: if_splits)
  then have q0: "qty (order_at s8 ?i) = 0" using ok8' by (simp add: order_ok_def)
  have tf: "totalFilled (order_at s8 ?i) = totalFilled (order_at ?s5 ?i)"
    using r8 by (simp add: oa6 split: if_splits)
  have fl: "firstfillnode (order_at s8 ?i) = firstfillnode (order_at ?s5 ?i)"
    using r8 by (simp add: oa6 split: if_splits)
  have oq: "originalQty (order_at s8 ?i) = q"
    using r8 by (simp add: oa6 r4 split: if_splits)
  have ot: "orderType (order_at s8 ?i) = otype"
    using r8 by (simp add: oa6 r4 split: if_splits)
  have quiet: "stderr_out ?s' = stderr_out ?s5 \<and> Quote ?s' = Quote ?s5"
    if "totalFilled (order_at s8 ?i) = 0"
    using that ot nl e8 e6 q8 q6 by (simp add: execute_order_ticker_def)
  show ?case
  proof (rule that[of s4 ?s'])
    show "book_ok ?s'" using ok8 by simp
    show "?i \<in> dom (AllOrders ?s')" using i8 by simp
    show "?i \<notin> set (book_nodes ?s')" using ni8 by (simp add: book_nodes_def)
    show "\<not> open (order_at ?s' ?i)" using cl by simp
    show "qty (order_at ?s' ?i) = 0" using q0 by simp
    show "totalFilled (order_at ?s' ?i) = totalFilled (order_at ?s5 ?i)" using tf by simp
    show "firstfillnode (order_at ?s' ?i) = firstfillnode (order_at ?s5 ?i)" using fl by simp
    show "originalQty (order_at ?s' ?i) = q" using oq by simp
    show "orderType (order_at ?s' ?i) = otype" using ot by simp
    show "\<forall>n. n \<noteq> ?i \<longrightarrow> AllOrders ?s' n = AllOrders ?s5 n" using o8 ao6 by simp
    show "totalFilled (order_at ?s' ?i) = 0 \<longrightarrow>
           stderr_out ?s' = stderr_out ?s5 \<and> Quote ?s' = Quote ?s5"
      using quiet by simp
  qed (fact create ex ok4 i4 ni4 r4 o4 f4)+
  qed
qed

lemma distinct_priority_sequence: "distinct (book_nodes s) \<Longrightarrow> distinct (priority_sequence s i)"
  using distinct_opposite_nodes[of s i] unfolding opposite_nodes_split by simp

text \<open>The run block for a fill-or-kill order that has just been created.\<close>

lemma fok_run:
  assumes ok: "book_ok s4" and ni: "i \<notin> set (book_nodes s4)"
    and r: "order_at s4 i = \<lparr>direction = dir, originalQty = q, qty = q, price = p, orderType = FOK,
           order_id = i, account = a, ts = t, firstfillnode = [], totalFilled = 0, open = True\<rparr>"
    and q: "1 \<le> q" "q \<le> 2147483647" and dir: "dir = BUY \<or> dir = SELL"
  shows "execute_order_run i s4 =
           (if decrement_reaches_zero q (crossable_qtys s4 (dir = BUY) p) then run_order i s4 else s4)"
    and "decrement_reaches_zero q (crossable_qtys s4 (dir = BUY) p) \<Longrightarrow>
           \<not> open (order_at (run_order i s4) i) \<and> totalFilled (order_at (run_order i s4) i) = q"
proof -
  note fe = fok_can_exact[OF ok q, of p]
  show "execute_order_run i s4 =
           (if decrement_reaches_zero q (crossable_qtys s4 (dir = BUY) p) then run_order i s4 else s4)"
    by (simp add: execute_order_run_def r fe)
  assume feas: "decrement_reaches_zero q (crossable_qtys s4 (dir = BUY) p)"
  let ?ns = "priority_sequence s4 i"
  from ok have ch: "chains_ok s4" by (simp add: book_ok_def)
  have sub: "set ?ns \<subseteq> set (book_nodes s4)" by (rule priority_sequence_book)
  have d: "distinct ?ns" using ch by (intro distinct_priority_sequence) (simp add: chains_ok_def)
  have nin: "i \<notin> set ?ns" using sub ni by auto
  have pos: "\<forall>n \<in> set ?ns. 0 < qty (order_at s4 n)"
    using sub book_ok_resting_qty[OF ok] by auto
  have qs: "map (\<lambda>n. qty (order_at s4 n)) ?ns = crossable_qtys s4 (dir = BUY) p"
    using priority_sequence_qtys[of s4 i] dir by (simp add: r FOK_def MARKET_def)
  have nonneg: "\<forall>x \<in> set (crossable_qtys s4 (dir = BUY) p). 0 \<le> x"
    unfolding qs[symmetric] using pos by auto
  have le: "q \<le> sum_list (crossable_qtys s4 (dir = BUY) p)"
    using decrement_reaches_zero_sum[OF nonneg q(1)] feas by simp
  have "\<not> open (order_at (walk ?ns i s4) i) \<and> qty (order_at (walk ?ns i s4) i) = 0 \<and>
     totalFilled (order_at (walk ?ns i s4) i) = totalFilled (order_at s4 i) + qty (order_at s4 i)"
  proof (rule walk_fills[OF d nin pos])
    show "open (order_at s4 i)" by (simp add: r)
    show "0 < qty (order_at s4 i)" using q by (simp add: r)
    show "qty (order_at s4 i) \<le> sum_list (map (\<lambda>n. qty (order_at s4 n)) ?ns)"
      unfolding qs using le by (simp add: r)
  qed
  then show "\<not> open (order_at (run_order i s4) i) \<and> totalFilled (order_at (run_order i s4) i) = q"
    by (simp add: run_order_walk r)
qed

lemma crossable_qtys_created:
  assumes "FirstBidLevel s4 = FirstBidLevel s" and "FirstAskLevel s4 = FirstAskLevel s"
    and "\<forall>n. n \<noteq> i \<longrightarrow> AllOrders s4 n = AllOrders s n" and "i \<notin> set (book_nodes s4)"
  shows "crossable_qtys s4 b p = crossable_qtys s b p"
proof (rule crossable_qtys_cong[OF assms(1,2)])
  have "book_nodes s4 = book_nodes s" by (simp add: book_nodes_def assms(1,2))
  with assms(4) have "\<forall>n \<in> set (book_nodes s). n \<noteq> i" by auto
  with assms(3) show "\<forall>n \<in> set (book_nodes s). order_at s4 n = order_at s n"
    by (simp add: order_at_def)
qed

section \<open>Fill-or-kill orders\<close>

text \<open>
  Claim C9. An accepted fill-or-kill order never fills in part: when the command is done
  the order is filled either with its whole original quantity (when the running
  decrement over the crossable quantities reaches \<open>\<le> 0\<close>) or with nothing, and in both
  cases it is closed and on no level of the book.
\<close>

theorem fok_all_or_nothing:
  assumes "reachable s" and "next_id_static s < MAXORDERS"
    and "0 \<le> account_int" and "account_int < MAXACCOUNTS"
    and "0 \<le> p" and "1 \<le> q" and "q \<le> 2147483647" and "dir = BUY \<or> dir = SELL"
  shows "\<exists>s'. execute_order nm account_int q p dir FOK s =
            Some (\<lparr>oe_order = Some (next_id_static s), oe_error = 0\<rparr>, s') \<and>
          AllOrders s' (next_id_static s) \<noteq> None \<and>
          originalQty (order_at s' (next_id_static s)) = q \<and>
          totalFilled (order_at s' (next_id_static s)) =
            (if decrement_reaches_zero q (crossable_qtys s (dir = BUY) p) then q else 0) \<and>
          (totalFilled (order_at s' (next_id_static s)) = originalQty (order_at s' (next_id_static s)) \<or>
           totalFilled (order_at s' (next_id_static s)) = 0) \<and>
          \<not> open (order_at s' (next_id_static s)) \<and>
          next_id_static s \<notin> set (book_nodes s')"
proof -
  let ?i = "next_id_static s"
  from assms(1) have ok: "book_ok s" by (rule reachable_book_ok)
  have nl: "FOK \<noteq> LIMIT" by (simp add: FOK_def LIMIT_def)
  show ?thesis
  proof (rule execute_order_not_limit[OF ok assms(2-8) nl, of nm], goal_cases)
    case (1 s4 s')
    note run = fok_run[OF 1(3) 1(5) 1(6) assms(6,7,8)]
    have cq: "crossable_qtys s4 (dir = BUY) p = crossable_qtys s (dir = BUY) p"
      using 1(8) 1(9) 1(7) 1(5) by (rule crossable_qtys_created)
    have tf: "totalFilled (order_at s' ?i) =
        (if decrement_reaches_zero q (crossable_qtys s (dir = BUY) p) then q else 0)"
    proof (cases "decrement_reaches_zero q (crossable_qtys s (dir = BUY) p)")
      case True
      then show ?thesis using run 1(17) by (simp add: cq)
    next
      case False
      then show ?thesis using run(1) 1(17) 1(6) by (simp add: cq)
    qed
    have "?i \<in> dom (AllOrders s')" by (rule 1(13))
    then have al: "AllOrders s' ?i \<noteq> None" by auto
    show ?case
      using 1(2) al 1(19) tf 1(15) 1(14) by auto
  qed
qed

theorem fok_all_or_nothing_witness:
  "\<exists>s'. execute_order ''B'' 1 60 5000 2 FOK resting_bid_state =
            Some (\<lparr>oe_order = Some 1, oe_error = 0\<rparr>, s') \<and>
          AllOrders s' 1 \<noteq> None \<and>
          originalQty (order_at s' 1) = 60 \<and>
          totalFilled (order_at s' 1) = 60 \<and>
          \<not> open (order_at s' 1) \<and> 1 \<notin> set (book_nodes s')"
  using fok_all_or_nothing [OF reachable_resting_bid_state, of 1 5000 60 2 "''B''"]
  by (auto simp add: resting_bid_state_def MAXORDERS_def MAXACCOUNTS_def BUY_def SELL_def
      crossable_qtys_def order_at_def example_bid_def)

text \<open>An infeasible fill-or-kill order: the whole command only closes the new order.\<close>

lemma fok_infeasible:
  assumes ok: "book_ok s" and cap: "next_id_static s < MAXORDERS"
    and acc: "0 \<le> account_int" "account_int < MAXACCOUNTS"
    and p: "0 \<le> p" and q: "1 \<le> q" "q \<le> 2147483647" and dir: "dir = BUY \<or> dir = SELL"
    and c: "execute_order_create nm account_int q p dir FOK s = Some (next_id_static s, s4)"
    and inf: "\<not> decrement_reaches_zero q (crossable_qtys s (dir = BUY) p)"
  shows "execute_order nm account_int q p dir FOK s =
           Some (\<lparr>oe_order = Some (next_id_static s), oe_error = 0\<rparr>,
                 upd_order (next_id_static s) (\<lambda>r. r\<lparr>qty := 0\<rparr>)
                   (upd_order (next_id_static s) (\<lambda>r. r\<lparr>open := False\<rparr>) s4))"
proof -
  let ?i = "next_id_static s"
  note c4 = execute_order_create_book_ok[OF ok acc(1) cap q p c]
  from c4 have ok4: "book_ok s4" and ni4: "?i \<notin> set (book_nodes s4)"
    and r4: "order_at s4 ?i = \<lparr>direction = dir, originalQty = q, qty = q, price = p,
           orderType = FOK, order_id = ?i, account = account_int, ts = clock s,
           firstfillnode = [], totalFilled = 0, open = True\<rparr>"
    and o4: "\<forall>n. n \<noteq> ?i \<longrightarrow> AllOrders s4 n = AllOrders s n"
    and f4: "FirstBidLevel s4 = FirstBidLevel s" "FirstAskLevel s4 = FirstAskLevel s"
    by simp_all
  have cq: "crossable_qtys s4 (dir = BUY) p = crossable_qtys s (dir = BUY) p"
    using f4 o4 ni4 by (rule crossable_qtys_created)
  have run: "execute_order_run ?i s4 = s4"
    using fok_run(1)[OF ok4 ni4 r4 q dir] inf by (simp add: cq)
  have cl: "execute_order_cleanup ?i s4 = Some s4"
    using ok4 by (rule execute_order_cleanup_untouched)
  have mp: "execute_order_market_price ?i s4 = s4"
    by (simp add: execute_order_market_price_def r4 FOK_def MARKET_def)
  let ?s8 = "upd_order ?i (\<lambda>r. r\<lparr>qty := 0\<rparr>) (upd_order ?i (\<lambda>r. r\<lparr>open := False\<rparr>) s4)"
  have pl: "execute_order_place ?i s4 = Some ?s8"
    by (simp add: execute_order_place_def r4 FOK_def LIMIT_def)
  have tk: "execute_order_ticker ?i ?s8 = ?s8"
    by (simp add: execute_order_ticker_def r4 FOK_def LIMIT_def)
  show ?thesis
    unfolding execute_order_accepted[OF cap acc(2) p q(1) dir]
    by (simp add: c run cl mp pl tk)
qed

text \<open>
  Claim C3. For a fill-or-kill order, \<^verbatim>\<open>fok_can_buy\<close> and \<^verbatim>\<open>fok_can_sell\<close> decide
  feasibility by subtracting the quantities of the crossable resting orders (those on
  levels within the limit price, in priority order) from the requested quantity: the
  order is feasible iff the running decrement reaches \<open>\<le> 0\<close>. The check is made on the
  book as it was before the command, before any matching, and the matcher
  \<^verbatim>\<open>run_order\<close> is invoked only if the order is feasible. An infeasible order has no
  fill, is closed, and nothing is written to the ticker stream; the book, the quote and
  every other order are as before.
\<close>

theorem fok_feasibility:
  assumes "reachable s" and "next_id_static s < MAXORDERS"
    and "0 \<le> account_int" and "account_int < MAXACCOUNTS"
    and "0 \<le> p" and "1 \<le> q" and "q \<le> 2147483647" and "dir = BUY \<or> dir = SELL"
  shows "fok_can_buy q p s = decrement_reaches_zero q (crossable_qtys s True p) \<and>
         fok_can_sell q p s = decrement_reaches_zero q (crossable_qtys s False p) \<and>
         (\<exists>s4 s'.
            execute_order_create nm account_int q p dir FOK s = Some (next_id_static s, s4) \<and>
            (if dir = BUY then fok_can_buy q p s4 else fok_can_sell q p s4) =
               decrement_reaches_zero q (crossable_qtys s (dir = BUY) p) \<and>
            execute_order_run (next_id_static s) s4 =
              (if decrement_reaches_zero q (crossable_qtys s (dir = BUY) p)
               then run_order (next_id_static s) s4 else s4) \<and>
            execute_order nm account_int q p dir FOK s =
              Some (\<lparr>oe_order = Some (next_id_static s), oe_error = 0\<rparr>, s') \<and>
            (\<not> decrement_reaches_zero q (crossable_qtys s (dir = BUY) p) \<longrightarrow>
               firstfillnode (order_at s' (next_id_static s)) = [] \<and>
               totalFilled (order_at s' (next_id_static s)) = 0 \<and>
               \<not> open (order_at s' (next_id_static s)) \<and>
               stderr_out s' = stderr_out s \<and> Quote s' = Quote s \<and>
               FirstBidLevel s' = FirstBidLevel s \<and> FirstAskLevel s' = FirstAskLevel s \<and>
               (\<forall>n. n \<noteq> next_id_static s \<longrightarrow> AllOrders s' n = AllOrders s n)))"
proof -
  let ?i = "next_id_static s"
  let ?feas = "decrement_reaches_zero q (crossable_qtys s (dir = BUY) p)"
  from assms(1) have ok: "book_ok s" by (rule reachable_book_ok)
  from assms(2) have ne: "?i \<noteq> MAXORDERS" by simp
  from execute_order_create_result[OF assms(3) ne, of nm q p dir FOK]
  obtain s4 where c: "execute_order_create nm account_int q p dir FOK s = Some (?i, s4)"
    by blast
  note c4 = execute_order_create_book_ok[OF ok assms(3) assms(2) assms(6,7) assms(5) c]
  from c4 have ok4: "book_ok s4" and ni4: "?i \<notin> set (book_nodes s4)"
    and r4: "order_at s4 ?i = \<lparr>direction = dir, originalQty = q, qty = q, price = p,
           orderType = FOK, order_id = ?i, account = account_int, ts = clock s,
           firstfillnode = [], totalFilled = 0, open = True\<rparr>"
    and o4: "\<forall>n. n \<noteq> ?i \<longrightarrow> AllOrders s4 n = AllOrders s n"
    and f4: "FirstBidLevel s4 = FirstBidLevel s" "FirstAskLevel s4 = FirstAskLevel s"
      "Quote s4 = Quote s" "stderr_out s4 = stderr_out s"
    by simp_all
  have cq: "crossable_qtys s4 b p = crossable_qtys s b p" for b
    using f4(1,2) o4 ni4 by (rule crossable_qtys_created)
  note fe = fok_can_exact[OF ok assms(6,7), of p]
  note fe4 = fok_can_exact[OF ok4 assms(6,7), of p]
  have chk: "(if dir = BUY then fok_can_buy q p s4 else fok_can_sell q p s4) = ?feas"
    using fe4 by (simp add: cq)
  have run: "execute_order_run ?i s4 = (if ?feas then run_order ?i s4 else s4)"
    using fok_run(1)[OF ok4 ni4 r4 assms(6,7,8)] by (simp add: cq)
  from execute_order_not_limit[OF ok assms(2-8), of FOK nm]
  obtain s' where ex: "execute_order nm account_int q p dir FOK s =
      Some (\<lparr>oe_order = Some ?i, oe_error = 0\<rparr>, s')"
    by (auto simp: FOK_def LIMIT_def)
  have inf: "firstfillnode (order_at s' ?i) = [] \<and> totalFilled (order_at s' ?i) = 0 \<and>
      \<not> open (order_at s' ?i) \<and> stderr_out s' = stderr_out s \<and> Quote s' = Quote s \<and>
      FirstBidLevel s' = FirstBidLevel s \<and> FirstAskLevel s' = FirstAskLevel s \<and>
      (\<forall>n. n \<noteq> ?i \<longrightarrow> AllOrders s' n = AllOrders s n)" if nf: "\<not> ?feas"
  proof -
    from fok_infeasible[OF ok assms(2-8) c nf] ex
    have s': "s' = upd_order ?i (\<lambda>r. r\<lparr>qty := 0\<rparr>) (upd_order ?i (\<lambda>r. r\<lparr>open := False\<rparr>) s4)"
      by simp
    have "\<forall>n. n \<noteq> ?i \<longrightarrow> AllOrders s' n = AllOrders s n"
      using o4 unfolding s' by (simp add: AllOrders_upd_order)
    then show ?thesis
      unfolding s' by (simp add: r4 upd_order_fields f4)
  qed
  show ?thesis
    using fe c chk run ex inf by blast
qed

theorem fok_feasibility_witness:
  "\<not> decrement_reaches_zero 250 (crossable_qtys resting_bid_state False 5000) \<and>
   \<not> fok_can_sell 250 5000 resting_bid_state \<and>
   (\<exists>s'. execute_order ''B'' 1 250 5000 2 FOK resting_bid_state =
            Some (\<lparr>oe_order = Some 1, oe_error = 0\<rparr>, s') \<and>
          firstfillnode (order_at s' 1) = [] \<and> totalFilled (order_at s' 1) = 0 \<and>
          \<not> open (order_at s' 1) \<and> stderr_out s' = [TICKER example_quote] \<and>
          FirstBidLevel s' = [\<lparr>level_price = 5000, firstordernode = [0]\<rparr>])"
  using fok_feasibility [OF reachable_resting_bid_state, of 1 5000 250 2 "''B''"]
  by (auto simp add: resting_bid_state_def MAXORDERS_def MAXACCOUNTS_def BUY_def SELL_def
      crossable_qtys_def order_at_def example_bid_def)

section \<open>Order types outside the four known ones\<close>

lemma orderType_to_print_unknown:
  "t \<noteq> LIMIT \<Longrightarrow> t \<noteq> MARKET \<Longrightarrow> t \<noteq> IOC \<Longrightarrow> t \<noteq> FOK \<Longrightarrow> orderType_to_print t = ''unknown''"
  by (simp add: orderType_to_print_def safe_strcpy_def SMALLSTRING_def)

text \<open>
  Claim C10. An \<^verbatim>\<open>ORDER\<close> whose type code is none of \<^verbatim>\<open>LIMIT\<close>, \<^verbatim>\<open>MARKET\<close>,
  \<^verbatim>\<open>FOK\<close>, \<^verbatim>\<open>IOC\<close> (1 to 4) passes the validation, which looks at price, quantity and
  direction only. It is matched by walking the opposite side under the price gate of a
  limit order (the levels within its price, best first), it never rests on the book
  (it ends closed with \<^verbatim>\<open>qty = 0\<close>), and the record printed for it has the order type
  \<^verbatim>\<open>"unknown"\<close>.
\<close>

theorem unknown_order_type:
  assumes "reachable s" and "next_id_static s < MAXORDERS"
    and "0 \<le> account_int" and "account_int < MAXACCOUNTS"
    and "0 \<le> p" and "1 \<le> q" and "q \<le> 2147483647" and "dir = BUY \<or> dir = SELL"
    and "otype \<notin> {LIMIT, MARKET, FOK, IOC}"
  shows "\<exists>s4 s'.
          execute_order nm account_int q p dir otype s =
            Some (\<lparr>oe_order = Some (next_id_static s), oe_error = 0\<rparr>, s') \<and>
          main_ORDER nm account_int q p dir otype s =
            Some (Order_reply (print_order s' (next_id_static s)), s') \<and>
          execute_order_create nm account_int q p dir otype s = Some (next_id_static s, s4) \<and>
          execute_order_run (next_id_static s) s4 =
            walk (concat (map firstordernode
                    (takeWhile (\<lambda>l. if dir = BUY then level_price l \<le> p else level_price l \<ge> p)
                       (if dir = BUY then FirstAskLevel s else FirstBidLevel s))))
              (next_id_static s) s4 \<and>
          totalFilled (order_at s' (next_id_static s)) =
            totalFilled (order_at (execute_order_run (next_id_static s) s4) (next_id_static s)) \<and>
          firstfillnode (order_at s' (next_id_static s)) =
            firstfillnode (order_at (execute_order_run (next_id_static s) s4) (next_id_static s)) \<and>
          \<not> open (order_at s' (next_id_static s)) \<and>
          qty (order_at s' (next_id_static s)) = 0 \<and>
          next_id_static s \<notin> set (book_nodes s') \<and>
          json_open (print_order s' (next_id_static s)) = False \<and>
          json_qty (print_order s' (next_id_static s)) = 0 \<and>
          json_orderType (print_order s' (next_id_static s)) = ''unknown''"
proof -
  let ?i = "next_id_static s"
  from assms(1) have ok: "book_ok s" by (rule reachable_book_ok)
  from assms(9) have nl: "otype \<noteq> LIMIT" and nm: "otype \<noteq> MARKET" and nf: "otype \<noteq> FOK"
    and nio: "otype \<noteq> IOC" by simp_all
  show ?thesis
  proof (rule execute_order_not_limit[OF ok assms(2-8) nl, of nm], goal_cases)
    case (1 s4 s')
    note c = 1(1) and ex = 1(2) and r4 = 1(6) and fb = 1(8) and fa = 1(9)
    have m: "main_ORDER nm account_int q p dir otype s = Some (Order_reply (print_order s' ?i), s')"
      by (simp add: main_ORDER_def ex)
    have ps: "priority_sequence s4 ?i =
       concat (map firstordernode
         (takeWhile (\<lambda>l. if dir = BUY then level_price l \<le> p else level_price l \<ge> p)
            (if dir = BUY then FirstAskLevel s else FirstBidLevel s)))"
      using priority_sequence_limit_gated[of s4 ?i] assms(8) nm by (simp add: r4 fb fa)
    have run: "execute_order_run ?i s4 =
       walk (concat (map firstordernode
               (takeWhile (\<lambda>l. if dir = BUY then level_price l \<le> p else level_price l \<ge> p)
                  (if dir = BUY then FirstAskLevel s else FirstBidLevel s)))) ?i s4"
      unfolding ps[symmetric] using nf by (simp add: execute_order_run_def r4 run_order_walk)
    have pr: "json_open (print_order s' ?i) = False" "json_qty (print_order s' ?i) = 0"
      "json_orderType (print_order s' ?i) = ''unknown''"
      using 1(15) 1(16) 1(20) orderType_to_print_unknown[OF nl nm nio nf]
      by (simp_all add: print_order_def Let_def)
    show ?case
      using ex m c run 1(17) 1(18) 1(15) 1(16) 1(14) pr by blast
  qed
qed

theorem unknown_order_type_witness:
  "\<exists>s'. main_ORDER ''B'' 1 60 5000 2 7 resting_bid_state =
            Some (Order_reply (print_order s' 1), s') \<and>
          \<not> open (order_at s' 1) \<and> qty (order_at s' 1) = 0 \<and>
          1 \<notin> set (book_nodes s') \<and>
          json_orderType (print_order s' 1) = ''unknown''"
  using unknown_order_type [OF reachable_resting_bid_state, of 1 5000 60 2 7 "''B''"]
  by (auto simp add: resting_bid_state_def MAXORDERS_def MAXACCOUNTS_def BUY_def SELL_def
      LIMIT_def MARKET_def FOK_def IOC_def)

section \<open>The example states are reached\<close>

lemmas example_defs = example_bid_def example_ask_def example_quote_def resting_bid_state_def
  incoming_ask_state_def example_fill_def traded_bid_def traded_ask_def crossed_state_def
  traded_quote_def traded_state_def second_bid_def two_bids_state_def better_bid_def
  three_bids_state_def incoming_sell_def incoming_sell_state_def

lemmas order_defs = main_ORDER_def execute_order_def next_id_def MAXORDERS_def MAXACCOUNTS_def
  BUY_def SELL_def LIMIT_def MARKET_def FOK_def IOC_def execute_order_create_def
  account_lookup_or_create_def init_order_def new_timestamp_def Let_def
  add_order_to_account_def init_account_def safe_strcpy_def SMALLSTRING_def
  account_at_def execute_order_run_def run_order_def order_at_def
  execute_order_cleanup_def execute_order_market_price_def execute_order_place_def
  insert_bid_def insert_ask_def execute_order_ticker_def remake_most_of_quote_def
  create_ticker_message_def get_size_from_level_def get_depth_def int64_of_def
  upd_order_def eval_nat_numeral print_order_def orderType_to_print_def

lemma execute_order_create_incoming_ask_state:
  "execute_order_create ''B'' 1 60 5000 2 1 resting_bid_state = Some (1, incoming_ask_state)"
  by (simp add: order_defs example_defs)

text \<open>The cross of the two orders, block by block.\<close>

lemma cross_decrement_example:
  "cross_decrement 0 1 60 (incoming_ask_state\<lparr>clock := 5\<rparr>) =
     incoming_ask_state
       \<lparr>clock := 5,
        AllOrders := [0 \<mapsto> example_bid\<lparr>qty := 40, totalFilled := 60\<rparr>,
                      1 \<mapsto> (example_ask 1)\<lparr>qty := 0, totalFilled := 60\<rparr>]\<rparr>"
  by (simp add: cross_decrement_def upd_order_def order_at_def incoming_ask_state_def
      resting_bid_state_def example_bid_def example_ask_def)

lemma cross_record_fill_example:
  "cross_record_fill 0 1 example_fill
     (incoming_ask_state
        \<lparr>clock := 5,
         AllOrders := [0 \<mapsto> example_bid\<lparr>qty := 40, totalFilled := 60\<rparr>,
                       1 \<mapsto> (example_ask 1)\<lparr>qty := 0, totalFilled := 60\<rparr>]\<rparr>) =
     incoming_ask_state\<lparr>clock := 5, AllOrders := [0 \<mapsto> traded_bid, 1 \<mapsto> traded_ask]\<rparr>"
  by (simp add: cross_record_fill_def upd_order_def order_at_def incoming_ask_state_def
      resting_bid_state_def example_bid_def example_ask_def traded_bid_def traded_ask_def)

lemma cross_positions_example:
  "cross_positions 0 1 60 5000
     (incoming_ask_state\<lparr>clock := 5, AllOrders := [0 \<mapsto> traded_bid, 1 \<mapsto> traded_ask]\<rparr>) =
     crossed_state\<lparr>clock := 5, Quote := example_quote, stderr_out := [TICKER example_quote]\<rparr>"
  by (simp add: cross_positions_def update_account_def update_account_struct_def
      update_shares_def update_cents_def int32_of_def int64_of_def account_at_def order_at_def
      BUY_def SELL_def Let_def example_defs)

lemma set_quote_lastinfo_example:
  "set_quote_lastinfo 5000 60
     (crossed_state\<lparr>clock := 5, Quote := example_quote, stderr_out := [TICKER example_quote]\<rparr>) =
     crossed_state\<lparr>stderr_out := [TICKER example_quote]\<rparr>"
  by (simp add: set_quote_lastinfo_def new_timestamp_def example_defs)

lemma create_execution_messages_example:
  "create_execution_messages 0 1 60 5000 4 (crossed_state\<lparr>stderr_out := [TICKER example_quote]\<rparr>) =
     crossed_state"
  by (simp add: create_execution_messages_def print_order_def orderType_to_print_def
      safe_strcpy_def SMALLSTRING_def account_at_def order_at_def Let_def
      BUY_def SELL_def LIMIT_def MARKET_def FOK_def IOC_def example_defs)

lemma cross_incoming_ask_state: "cross 0 1 incoming_ask_state = crossed_state"
proof -
  have q: "min (qty (order_at incoming_ask_state 0)) (qty (order_at incoming_ask_state 1)) = 60"
    by (simp add: order_at_def example_defs)
  have c: "clock incoming_ask_state = 4"
    "incoming_ask_state\<lparr>clock := 4 + 1\<rparr> = incoming_ask_state\<lparr>clock := 5\<rparr>"
    by (simp_all add: example_defs)
  have p: "price (order_at (incoming_ask_state
       \<lparr>clock := 5,
        AllOrders := [0 \<mapsto> example_bid\<lparr>qty := 40, totalFilled := 60\<rparr>,
                      1 \<mapsto> (example_ask 1)\<lparr>qty := 0, totalFilled := 60\<rparr>]\<rparr>) 0) = 5000"
    by (simp add: order_at_def example_defs)
  have f: "\<lparr>fill_price = 5000, fill_qty = 60, fill_ts = 4\<rparr> = example_fill"
    by (simp add: example_fill_def)
  show ?thesis
    unfolding cross_unfold Let_def q c cross_decrement_example p f cross_record_fill_example
      cross_positions_example set_quote_lastinfo_example create_execution_messages_example
    by (rule refl)
qed

lemma main_step_traded_state:
  "main_step (ORDER_command ''B'' 1 60 5000 2 1) resting_bid_state =
     Some (Order_reply (print_order traded_state 1), traded_state)"
proof -
  have v: "next_id_static resting_bid_state < MAXORDERS" "(1::int) < MAXACCOUNTS"
    "(2::int) = BUY \<or> (2::int) = SELL"
    by (simp_all add: resting_bid_state_def MAXORDERS_def MAXACCOUNTS_def SELL_def)
  have o: "order_at incoming_ask_state 1 = example_ask 1"
    "FirstBidLevel incoming_ask_state = [\<lparr>level_price = 5000, firstordernode = [0]\<rparr>]"
    by (simp_all add: order_at_def incoming_ask_state_def resting_bid_state_def)
  have oc: "\<not> open (order_at crossed_state 1)"
    by (simp add: order_at_def crossed_state_def traded_ask_def)
  have run: "execute_order_run 1 incoming_ask_state = crossed_state"
    by (simp add: execute_order_run_def run_order_def o example_ask_def FOK_def SELL_def
        MARKET_def cross_incoming_ask_state Let_def oc)
  have cl: "execute_order_cleanup 1 crossed_state = Some crossed_state"
    by (simp add: execute_order_cleanup_def order_at_def SELL_def example_defs)
  have mp: "execute_order_market_price 1 crossed_state = crossed_state"
    by (simp add: execute_order_market_price_def order_at_def MARKET_def example_defs)
  have pl: "execute_order_place 1 crossed_state = Some crossed_state"
    by (simp add: execute_order_place_def order_at_def example_defs)
  have tk: "execute_order_ticker 1 crossed_state = traded_state"
    by (simp add: execute_order_ticker_def remake_most_of_quote_def create_ticker_message_def
        new_timestamp_def get_size_from_level_def get_depth_def int64_of_def order_at_def
        Let_def LIMIT_def example_defs)
  have "execute_order ''B'' 1 60 5000 2 1 resting_bid_state =
      Some (\<lparr>oe_order = Some 1, oe_error = 0\<rparr>, traded_state)"
    by (subst execute_order_accepted[OF v(1,2) _ _ v(3)])
       (simp_all add: execute_order_create_incoming_ask_state run cl mp pl tk)
  then show ?thesis by (simp add: main_ORDER_def)
qed

lemma main_step_two_bids_state:
  "main_step (ORDER_command ''C'' 2 10 5000 1 1) traded_state =
     Some (Order_reply (print_order two_bids_state 2), two_bids_state)"
  by (simp add: order_defs example_defs)

lemma main_step_three_bids_state:
  "main_step (ORDER_command ''A'' 0 20 5010 1 1) two_bids_state =
     Some (Order_reply (print_order three_bids_state 3), three_bids_state)"
  by (simp add: order_defs example_defs)

lemma execute_order_create_incoming_sell_state:
  "execute_order_create ''B'' 1 25 5000 2 1 three_bids_state = Some (4, incoming_sell_state)"
  by (simp add: order_defs example_defs fun_upd_twist)



section \<open>Quantities of an order\<close>

lemma reachable_by_reachable: "reachable_by cs s \<Longrightarrow> reachable s"
  by (induction rule: reachable_by.induct) (auto intro: reachable.intros)

lemma reachable_reachable_by: "reachable s \<Longrightarrow> \<exists>cs. reachable_by cs s"
  by (induction rule: reachable.induct) (blast intro: reachable_by.intros)+

text \<open>A cross moves quantity from \<^verbatim>\<open>qty\<close> to \<^verbatim>\<open>totalFilled\<close>, on both orders.\<close>

lemma cross_quantities:
  "a \<noteq> b \<Longrightarrow>
   qty (order_at (cross a b s) r) + totalFilled (order_at (cross a b s) r) =
   qty (order_at s r) + totalFilled (order_at s r)"
  by (simp add: cross_order_at)

lemma walk_quantities:
  "b \<notin> set ns \<Longrightarrow>
   qty (order_at (walk ns b s) r) + totalFilled (order_at (walk ns b s) r) =
   qty (order_at s r) + totalFilled (order_at s r)"
proof (induction ns arbitrary: s)
  case Nil
  then show ?case by simp
next
  case (Cons n ns)
  then have "n \<noteq> b" "b \<notin> set ns" by auto
  then show ?case
    using Cons.IH[of "cross n b s"] cross_quantities[of n b s r] by (simp add: Let_def)
qed

lemma execute_order_run_quantities:
  assumes "i \<notin> set (book_nodes s)"
  shows "qty (order_at (execute_order_run i s) r) + totalFilled (order_at (execute_order_run i s) r) =
         qty (order_at s r) + totalFilled (order_at s r)"
proof -
  have "i \<notin> set (priority_sequence s i)" using priority_sequence_book[of s i] assms by auto
  then show ?thesis
    using execute_order_run_cases[of i s] walk_quantities[of i "priority_sequence s i" s r]
    by auto
qed

text \<open>
  What a command does to the orders of the store: an accepted \<^verbatim>\<open>ORDER\<close> leaves the
  others as the run left them, and a \<^verbatim>\<open>CANCEL\<close> touches the order it names only.
\<close>

lemma execute_order_rejected:
  assumes "\<not> (next_id_static s < MAXORDERS \<and> 0 \<le> account_int \<and> account_int < MAXACCOUNTS \<and>
             0 \<le> p \<and> 1 \<le> q \<and> (dir = BUY \<or> dir = SELL))"
    and "execute_order nm account_int q p dir otype s = Some (oe, s')"
  shows "s' = s"
proof (cases "account_int < 0")
  case True
  then show ?thesis using assms(2) by (rule execute_order_negative_account)
next
  case False
  with assms(1) have "\<exists>e. execute_order nm account_int q p dir otype s = Some (e, s)"
    unfolding execute_order_def next_id_no_iterate by auto
  with assms(2) show ?thesis by auto
qed

lemma main_CANCEL_orders:
  assumes ok: "book_ok s" and st: "main_CANCEL j s = Some (rep, s')" and ne: "i \<noteq> j"
  shows "AllOrders s' i = AllOrders s i"
proof (cases "j < 0 \<or> j > HighestKnownOrder s \<or> AllOrders s j = None")
  case True
  with st show ?thesis by (simp add: main_CANCEL_def)
next
  case False
  then have j: "j \<in> dom (AllOrders s)" by auto
  from st False have c: "cancel_order_by_id j s = Some s'"
    by (auto simp: main_CANCEL_def split: option.splits)
  show ?thesis
  proof (cases "j \<in> set (book_nodes s)")
    case True
    from cancel_resting[OF ok j True] c obtain s3 where
      "s' = create_ticker_message (remake_most_of_quote s3)"
      "AllOrders s3 = (AllOrders s)(j \<mapsto> (order_at s j)\<lparr>open := False, qty := 0\<rparr>)"
      by auto
    with ne show ?thesis by simp
  next
    case False
    with cancel_not_resting[OF ok j] c show ?thesis by simp
  qed
qed

lemma main_step_limit_equation:
  assumes ok: "book_ok s" and c: "command_ok c" and st: "main_step c s = Some (rep, s')"
    and r': "AllOrders s' i = Some r'" and lim: "orderType r' = LIMIT"
    and nc: "c \<noteq> CANCEL_command i"
    and before: "\<And>r. AllOrders s i = Some r \<Longrightarrow> orderType r = LIMIT \<Longrightarrow>
                   qty r + totalFilled r = originalQty r"
  shows "qty r' + totalFilled r' = originalQty r'"
proof (cases c)
  case (ORDER_command nm account_int q p dir otype)
  with st obtain oe where ex: "execute_order nm account_int q p dir otype s = Some (oe, s')"
    by (auto simp: main_ORDER_def split: option.splits if_splits)
  show ?thesis
  proof (cases "next_id_static s < MAXORDERS \<and> 0 \<le> account_int \<and> account_int < MAXACCOUNTS \<and>
             0 \<le> p \<and> 1 \<le> q \<and> (dir = BUY \<or> dir = SELL)")
    case False
    from execute_order_rejected[OF False ex] r' lim before show ?thesis by simp
  next
    case True
    then have v: "next_id_static s < MAXORDERS" "0 \<le> account_int" "account_int < MAXACCOUNTS"
      "0 \<le> p" "1 \<le> q" "dir = BUY \<or> dir = SELL" by simp_all
    have q: "q \<le> 2147483647" using c ORDER_command by (simp add: is_int32_def)
    let ?i = "next_id_static s"
    show ?thesis
    proof (rule execute_order_steps[OF ok v(1,2,3,4,5) q v(6), of nm otype], goal_cases)
      case (1 s4 s6 s8)
      let ?s5 = "execute_order_run ?i s4"
      from 1(28) ex have s': "s' = execute_order_ticker ?i s8" by simp
      have oa6: "order_at s6 = order_at ?s5" using 1(13) by (rule order_at_cong)
      from execute_order_run_cleanup[OF 1(2) 1(3) 1(4)] 1(11)
      have d6: "dom (AllOrders s6) = dom (AllOrders s4)" by (elim exE conjE) simp
      have sum5: "qty (order_at ?s5 n) + totalFilled (order_at ?s5 n) =
          qty (order_at s4 n) + totalFilled (order_at s4 n)" for n
        using 1(4) by (rule execute_order_run_quantities)
      show ?case
      proof (cases "i = ?i")
        case False
        from r' False have a8: "AllOrders s6 i = Some r'" using 1(21) by (simp add: s')
        then have r5: "order_at ?s5 i = r'" by (simp add: oa6[symmetric] order_at_def)
        from a8 have "i \<in> dom (AllOrders s4)" using d6 by auto
        then have "AllOrders s i = Some (order_at s4 i)"
          using False 1(6) by (auto simp: order_at_def)
        moreover have "orderType (order_at s4 i) = LIMIT"
          using lim r5[symmetric] by simp
        ultimately have "qty (order_at s4 i) + totalFilled (order_at s4 i) = originalQty (order_at s4 i)"
          by (rule before)
        then show ?thesis using sum5[of i] r5[symmetric] by simp
      next
        case True
        from r' have r8: "order_at s8 ?i = r'" by (simp add: s' True order_at_def)
        have ty: "orderType (order_at s8 ?i) = otype"
          unfolding 1(22) by (simp add: oa6 1(5))
        with lim r8 have ot: "otype = LIMIT" by simp
        have "order_at s8 ?i = order_at ?s5 ?i"
          unfolding 1(22) using ot
          by (simp add: execute_order_market_price_def oa6 1(5) LIMIT_def MARKET_def)
        then show ?thesis
          using sum5[of ?i] r8 by (simp add: 1(5))
      qed
    qed
  qed
next
  case (CANCEL_command j)
  with nc have "i \<noteq> j" by simp
  from main_CANCEL_orders[OF ok _ this] st CANCEL_command have "AllOrders s' i = AllOrders s i"
    by simp
  with r' lim before show ?thesis by simp
next
  case (STATUS_command j)
  with st have "s' = s" by (auto simp: main_STATUS_def split: if_splits)
  with r' lim before show ?thesis by simp
qed

lemma limit_never_cancelled:
  "reachable_by cs s \<Longrightarrow> AllOrders s i = Some r \<Longrightarrow> orderType r = LIMIT \<Longrightarrow>
   CANCEL_command i \<notin> set cs \<Longrightarrow> qty r + totalFilled r = originalQty r"
proof (induction arbitrary: r rule: reachable_by.induct)
  case reachable_by_init
  then show ?case by (simp add: initial_state_def)
next
  case (reachable_by_step cs s c rep s')
  from reachable_by_step.hyps(1) have ok: "book_ok s"
    by (intro reachable_book_ok reachable_by_reachable)
  from reachable_by_step.prems(3) have nc: "c \<noteq> CANCEL_command i"
    and ncs: "CANCEL_command i \<notin> set cs" by auto
  show ?case
  proof (rule main_step_limit_equation[OF ok reachable_by_step.hyps(2,3)
        reachable_by_step.prems(1,2) nc])
    fix r0 assume "AllOrders s i = Some r0" "orderType r0 = LIMIT"
    then show "qty r0 + totalFilled r0 = originalQty r0"
      using ncs by (intro reachable_by_step.IH)
  qed
qed

lemma reachable_by_traded_state:
  "reachable_by [ORDER_command ''A'' 0 100 5000 1 1, ORDER_command ''B'' 1 60 5000 2 1]
     traded_state"
  using reachable_by_step[OF reachable_by_step[OF reachable_by_init _ main_step_resting_bid_state]
      _ main_step_traded_state]
  by (simp add: is_int32_def)

lemma traded_state_orders:
  "AllOrders traded_state 0 = Some traded_bid"
  "AllOrders traded_state 1 = Some traded_ask"
  by (simp_all add: traded_state_def crossed_state_def)

text \<open>
  Claim C8, as far as it holds. In every state \<open>s\<close> that a list \<open>cs\<close> of commands
  reaches (every reachable state is one), \<open>qty + totalFilled = originalQty\<close> holds for
  exactly the orders that are open or completely filled, and so in particular for every
  limit order that no \<^verbatim>\<open>CANCEL\<close> command of \<open>cs\<close> names. The orders it fails for are those
  closed with a remainder (a market, immediate-or-cancel, fill-or-kill or unknown-type
  order not completely filled, a cancelled limit order): their \<^verbatim>\<open>qty\<close> is 0 and their
  filled quantity is below the original one. An open order has a positive \<^verbatim>\<open>qty\<close>.
\<close>

theorem order_quantities:
  assumes "reachable_by cs s" and "AllOrders s i = Some r"
  shows "(qty r + totalFilled r = originalQty r \<longleftrightarrow> open r \<or> totalFilled r = originalQty r) \<and>
         (orderType r = LIMIT \<and> CANCEL_command i \<notin> set cs \<longrightarrow>
            qty r + totalFilled r = originalQty r) \<and>
         (if open r then 0 < qty r else qty r = 0) \<and>
         0 \<le> totalFilled r \<and> totalFilled r \<le> originalQty r"
proof -
  from assms(1) have "book_ok s" by (intro reachable_book_ok reachable_by_reachable)
  then have "store_ok s" by (simp add: book_ok_def chains_ok_def)
  with assms(2) have "order_ok r" by (simp add: store_ok_def)
  then have "(qty r + totalFilled r = originalQty r \<longleftrightarrow> open r \<or> totalFilled r = originalQty r)"
    and "if open r then 0 < qty r else qty r = 0"
    and "0 \<le> totalFilled r" and "totalFilled r \<le> originalQty r"
    by (auto simp: order_ok_def split: if_splits)
  moreover have "orderType r = LIMIT \<and> CANCEL_command i \<notin> set cs \<longrightarrow>
      qty r + totalFilled r = originalQty r"
    using limit_never_cancelled[OF assms] by blast
  ultimately show ?thesis by blast
qed

theorem order_quantities_witness:
  "AllOrders traded_state 1 = Some traded_ask \<and> orderType traded_ask = LIMIT \<and>
   CANCEL_command 1 \<notin>
     set [ORDER_command ''A'' 0 100 5000 1 1, ORDER_command ''B'' 1 60 5000 2 1] \<and>
   \<not> open traded_ask \<and> qty traded_ask = 0 \<and> totalFilled traded_ask = 60 \<and>
   qty traded_ask + totalFilled traded_ask = originalQty traded_ask \<and>
   AllOrders traded_state 0 = Some traded_bid \<and>
   open traded_bid \<and> qty traded_bid = 40 \<and> totalFilled traded_bid = 60 \<and>
   qty traded_bid + totalFilled traded_bid = originalQty traded_bid"
  using order_quantities [OF reachable_by_traded_state traded_state_orders(2)]
    order_quantities [OF reachable_by_traded_state traded_state_orders(1)]
  by (simp add: traded_state_orders traded_ask_def traded_bid_def example_ask_def
      example_bid_def LIMIT_def)

text \<open>
  The claim as stated fails: a market order on the empty book is closed with remaining
  quantity 0 and nothing filled, so its \<open>qty + totalFilled\<close> is 0 and not the original
  5. This is what the command \<^verbatim>\<open>ORDER B 1 5 0 1 2\<close> prints on the initial state.
\<close>

theorem order_quantities_counterexample:
  "map_option fst (main_step (ORDER_command ''B'' 1 5 0 1 2) initial_state) =
     Some (Order_reply
       \<lparr>json_direction = ''buy'', json_originalQty = 5, json_qty = 0, json_price = 0,
        json_orderType = ''market'', json_id = 0, json_account = ''B'', json_ts = 1,
        json_totalFilled = 0, json_open = False, json_fills = []\<rparr>)"
  by code_simp

end
